theory Spec2Isabelle
  imports Main
begin

section \<open>Data model\<close>

text \<open>
  A path is the list of its components. \<open>directory / name\<close> is \<open>directory @ [name]\<close>,
  and the parent of a child yielded by \<open>iterdir\<close> is the directory that was listed.
\<close>

type_synonym path = "string list"

definition parent :: "path \<Rightarrow> path" where
  "parent p = butlast p"

text \<open>
  The filesystem below the root, read once when the dependencies are collected.
  A regular file holds its decoded text, or \<open>None\<close> when opening or reading it raises.
  A directory holds what \<open>iterdir\<close> yields, its children in enumeration order, or
  \<open>None\<close> when \<open>iterdir\<close> raises (the directory cannot be listed).
  \<open>Special\<close> is an entry for which both \<open>is_dir\<close> and \<open>is_file\<close> are false.
  \<open>Inaccessible\<close> is an entry that cannot be examined: its \<open>is_dir\<close> raises.
\<close>

datatype fsnode =
    RegularFile "string option"
  | Directory "(string \<times> fsnode) list option"
  | Special
  | Inaccessible

text \<open>The exceptions the program can end with.\<close>

datatype error =
    IndexError
  | RuntimeError string
  | CalledProcessError
  | OSError

text \<open>
  \<open>Dependencies\<close> is a \<open>defaultdict(list)\<close> from folder to URLs. A Python dict
  keeps its keys in insertion order, and \<open>main\<close> iterates it, so it is an association
  list in insertion order.
\<close>

type_synonym Dependencies = "(path \<times> string list) list"

definition HASH_DISPLAY_LEN :: nat where
  "HASH_DISPLAY_LEN = 7"

definition ZON :: string where
  "ZON = ''build.zig.zon''"

section \<open>String primitives of Python used by the program\<close>

text \<open>
  A character stands for a code point below 256. \<open>str.isspace\<close> holds there for
  TAB, LF, VT, FF, CR, FS, GS, RS, US, space, NEL and NBSP.
\<close>

definition isspace :: "char \<Rightarrow> bool" where
  "isspace c = ((of_char c :: nat) \<in> {9, 10, 11, 12, 13, 28, 29, 30, 31, 32, 133, 160})"

definition strip :: "string \<Rightarrow> string" where
  "strip s = rev (dropWhile isspace (rev (dropWhile isspace s)))"

definition startswith :: "string \<Rightarrow> string \<Rightarrow> bool" where
  "startswith s p = (take (length p) s = p)"

text \<open>
  \<open>s.split(sep)\<close> for a one-character separator: the pieces between the occurrences
  of \<open>sep\<close>; one more piece than there are separators, so never an empty list.
\<close>

fun split :: "char \<Rightarrow> string \<Rightarrow> string list" where
  "split sep [] = [[]]"
| "split sep (c # cs) =
     (if c = sep then [] # split sep cs
      else (case split sep cs of
              [] \<Rightarrow> [[c]]
            | p # ps \<Rightarrow> (c # p) # ps))"

text \<open>\<open>xs[i]\<close> for a non-negative index: out of range raises \<open>IndexError\<close>.\<close>

definition index :: "'a list \<Rightarrow> nat \<Rightarrow> error + 'a" where
  "index xs i = (if i < length xs then Inr (xs ! i) else Inl IndexError)"

text \<open>
  \<open>f.readlines()\<close> of a file opened in text mode with the default \<open>newline=None\<close>:
  \<open>\r\n\<close>, \<open>\r\<close> and \<open>\n\<close> each end a line and are read as \<open>\n\<close>; every line
  keeps its terminator; the last line has none when the text does not end with one.
\<close>

fun readlines :: "string \<Rightarrow> string list" where
  "readlines [] = []"
| "readlines (c # cs) =
     (if c = CHR 0x0D then
        (case cs of
           [] \<Rightarrow> [[CHR 0x0A]]
         | d # ds \<Rightarrow> if d = CHR 0x0A then [CHR 0x0A] # readlines ds
                     else [CHR 0x0A] # readlines (d # ds))
      else if c = CHR 0x0A then [CHR 0x0A] # readlines cs
      else (case readlines cs of
              [] \<Rightarrow> [[c]]
            | l # ls \<Rightarrow> (c # l) # ls))"

section \<open>Collecting the dependencies\<close>

text \<open>
  \<open>dependencies[folder].append(v)\<close>: a missing key is created, at the end, with an
  empty list, then \<open>v\<close> is appended to the key's list.
\<close>

fun append_dep :: "Dependencies \<Rightarrow> path \<Rightarrow> string \<Rightarrow> Dependencies" where
  "append_dep [] folder v = [(folder, [v])]"
| "append_dep ((k, vs) # rest) folder v =
     (if k = folder then (k, vs @ [v]) # rest
      else (k, vs) # append_dep rest folder v)"

text \<open>The loop over the lines of one manifest (the body of \<open>_find_dependencies\<close>).\<close>

fun find_lines :: "path \<Rightarrow> string list \<Rightarrow> Dependencies \<Rightarrow> error + Dependencies" where
  "find_lines folder [] dependencies = Inr dependencies"
| "find_lines folder (raw # raws) dependencies =
     (let line = strip raw in
      if startswith line ''//'' then find_lines folder raws dependencies
      else if startswith line ''.url'' then
        (case index (split (CHR 0x22) line) 1 of
           Inl e \<Rightarrow> Inl e
         | Inr v \<Rightarrow> find_lines folder raws (append_dep dependencies folder v))
      else find_lines folder raws dependencies)"

text \<open>\<open>_find_dependencies(file, dependencies)\<close>; \<open>content\<close> is what the file holds.\<close>

definition find_dependencies ::
  "path \<Rightarrow> string option \<Rightarrow> Dependencies \<Rightarrow> error + Dependencies" where
  "find_dependencies file content dependencies =
     (case content of
        None \<Rightarrow> Inl OSError
      | Some text \<Rightarrow> find_lines (parent file) (readlines text) dependencies)"

text \<open>
  \<open>_collect_dependencies(directory, dependencies, recursive=recursive)\<close>. The second
  argument is the listing of \<open>directory\<close>: \<open>None\<close> when \<open>directory.iterdir()\<close>
  raises, otherwise the children that the loop has still to visit. For each child the
  test \<open>child.is_dir() and recursive\<close> comes first, so an entry whose \<open>is_dir\<close> raises
  ends the walk with or without the flag.
\<close>

function (sequential) collect_dependencies ::
  "path \<Rightarrow> (string \<times> fsnode) list option \<Rightarrow> Dependencies \<Rightarrow> bool
     \<Rightarrow> error + Dependencies" where
  "collect_dependencies directory None dependencies recursive = Inl OSError"
| "collect_dependencies directory (Some []) dependencies recursive = Inr dependencies"
| "collect_dependencies directory (Some ((name, Directory listing) # rest)) dependencies recursive =
     (if recursive then
        (case collect_dependencies (directory @ [name]) listing dependencies recursive of
           Inl e \<Rightarrow> Inl e
         | Inr dependencies' \<Rightarrow>
             collect_dependencies directory (Some rest) dependencies' recursive)
      else collect_dependencies directory (Some rest) dependencies recursive)"
| "collect_dependencies directory (Some ((name, RegularFile content) # rest)) dependencies recursive =
     (if name = ZON then
        (case find_dependencies (directory @ [name]) content dependencies of
           Inl e \<Rightarrow> Inl e
         | Inr dependencies' \<Rightarrow>
             collect_dependencies directory (Some rest) dependencies' recursive)
      else collect_dependencies directory (Some rest) dependencies recursive)"
| "collect_dependencies directory (Some ((name, Special) # rest)) dependencies recursive =
     collect_dependencies directory (Some rest) dependencies recursive"
| "collect_dependencies directory (Some ((name, Inaccessible) # rest)) dependencies recursive =
     Inl OSError"
  by pat_completeness auto

termination
  by (relation "measure (\<lambda>(directory, listing, dependencies, recursive).
        size_option (size_list (size_prod (\<lambda>name. 0) size)) listing)") auto

text \<open>\<open>get_dependencies(root, recursive=recursive)\<close>; \<open>listing\<close> is the listing of the root.\<close>

definition get_dependencies ::
  "path \<Rightarrow> (string \<times> fsnode) list option \<Rightarrow> bool \<Rightarrow> error + Dependencies" where
  "get_dependencies root listing recursive =
     collect_dependencies root listing [] recursive"

section \<open>The oracle and the run\<close>

text \<open>
  An invocation of the external tool: \<open>zig fetch url\<close>, or \<open>zig fetch --save base\<close>
  run with a working directory.
\<close>

datatype invocation =
    Fetch string
  | FetchSave path string

text \<open>
  The external tool is outside the program. Its answer to an invocation may depend on
  everything invoked before: \<open>None\<close> when \<open>subprocess.run(..., check=True)\<close> raises
  (non-zero exit), otherwise the captured standard output.
\<close>

type_synonym tool = "invocation list \<Rightarrow> invocation \<Rightarrow> string option"

text \<open>What the run has done so far: the writes to standard output and the invocations.\<close>

record state =
  stdout :: "string list"
  calls :: "invocation list"

definition initial :: state where
  "initial = \<lparr>stdout = [], calls = []\<rparr>"

definition stdout_write :: "string \<Rightarrow> state \<Rightarrow> state" where
  "stdout_write s st = st\<lparr>stdout := stdout st @ [s]\<rparr>"

definition run :: "tool \<Rightarrow> invocation \<Rightarrow> state \<Rightarrow> (error + string) \<times> state" where
  "run zig command st =
     ((case zig (calls st) command of
         None \<Rightarrow> Inl CalledProcessError
       | Some out \<Rightarrow> Inr out),
      st\<lparr>calls := calls st @ [command]\<rparr>)"

definition get_hash :: "tool \<Rightarrow> string \<Rightarrow> state \<Rightarrow> (error + string) \<times> state" where
  "get_hash zig url st = run zig (Fetch url) st"

definition get_base :: "string \<Rightarrow> error + string" where
  "get_base url =
     (case split CHR ''#'' url of
        [] \<Rightarrow> Inl (RuntimeError ''Unsupported URL format'')
      | base # parts \<Rightarrow>
          if length parts = 0 then Inl (RuntimeError ''Unsupported URL format'')
          else Inr base)"

definition update_package ::
  "tool \<Rightarrow> path \<Rightarrow> string \<Rightarrow> state \<Rightarrow> (error + unit) \<times> state" where
  "update_package zig folder url st =
     (case get_base url of
        Inl e \<Rightarrow> (Inl e, st)
      | Inr base \<Rightarrow>
          (case run zig (FetchSave folder base) st of
             (Inl e, st') \<Rightarrow> (Inl e, st')
           | (Inr out, st') \<Rightarrow> (Inr (), st')))"

text \<open>The three lines \<open>main\<close> writes for a dependency.\<close>

definition up_to_date_line :: "string \<Rightarrow> string" where
  "up_to_date_line base = ''['' @ base @ ''] already up to date'' @ [CHR 0x0A]"

definition updated_line :: "string \<Rightarrow> string \<Rightarrow> string \<Rightarrow> string" where
  "updated_line base current latest =
     ''['' @ base @ ''] updated '' @ take HASH_DISPLAY_LEN current
       @ '' -> '' @ take HASH_DISPLAY_LEN latest @ [CHR 0x0A]"

definition out_of_date_line :: "string \<Rightarrow> string" where
  "out_of_date_line base = ''['' @ base @ ''] out of date'' @ [CHR 0x0A]"

definition no_zon_message :: string where
  "no_zon_message =
     ''no '' @ ZON @ '' file found (or no URLs in it).''
       @ '' did you run the command from the wrong directory?''"

text \<open>The body of the inner loop of \<open>main\<close>, for one URL of one folder.\<close>

definition check_url ::
  "tool \<Rightarrow> bool \<Rightarrow> path \<Rightarrow> string \<Rightarrow> state \<Rightarrow> (error + unit) \<times> state" where
  "check_url zig update folder url st =
     (case get_base url of
        Inl e \<Rightarrow> (Inl e, st)
      | Inr base \<Rightarrow>
          (case get_hash zig url st of
             (Inl e, st1) \<Rightarrow> (Inl e, st1)
           | (Inr current, st1) \<Rightarrow>
               (case get_hash zig base st1 of
                  (Inl e, st2) \<Rightarrow> (Inl e, st2)
                | (Inr latest, st2) \<Rightarrow>
                    if current = latest then (Inr (), stdout_write (up_to_date_line base) st2)
                    else if update then
                      (case update_package zig folder url st2 of
                         (Inl e, st3) \<Rightarrow> (Inl e, st3)
                       | (Inr u, st3) \<Rightarrow>
                           (Inr (), stdout_write (updated_line base current latest) st3))
                    else (Inr (), stdout_write (out_of_date_line base) st2))))"

text \<open>\<open>for url in urls\<close>.\<close>

fun check_urls ::
  "tool \<Rightarrow> bool \<Rightarrow> path \<Rightarrow> string list \<Rightarrow> state \<Rightarrow> (error + unit) \<times> state" where
  "check_urls zig update folder [] st = (Inr (), st)"
| "check_urls zig update folder (url # urls) st =
     (case check_url zig update folder url st of
        (Inl e, st') \<Rightarrow> (Inl e, st')
      | (Inr u, st') \<Rightarrow> check_urls zig update folder urls st')"

text \<open>\<open>for folder, urls in dependencies.items()\<close>.\<close>

fun check_folders ::
  "tool \<Rightarrow> bool \<Rightarrow> Dependencies \<Rightarrow> state \<Rightarrow> (error + unit) \<times> state" where
  "check_folders zig update [] st = (Inr (), st)"
| "check_folders zig update ((folder, urls) # rest) st =
     (case check_urls zig update folder urls st of
        (Inl e, st') \<Rightarrow> (Inl e, st')
      | (Inr u, st') \<Rightarrow> check_folders zig update rest st')"

text \<open>
  \<open>main\<close>, after the arguments are parsed: \<open>root\<close> is a directory with the given
  listing, \<open>recursive\<close> and \<open>update\<close> are the two flags. The result is the returned
  exit code or the exception that ends the run, with what was written and invoked.
\<close>

definition main ::
  "tool \<Rightarrow> path \<Rightarrow> (string \<times> fsnode) list option \<Rightarrow> bool \<Rightarrow> bool
     \<Rightarrow> (error + int) \<times> state" where
  "main zig root listing recursive update =
     (case get_dependencies root listing recursive of
        Inl e \<Rightarrow> (Inl e, initial)
      | Inr dependencies \<Rightarrow>
          if dependencies = [] then (Inr 0, stdout_write no_zon_message initial)
          else
            (case check_folders zig update dependencies initial of
               (Inl e, st) \<Rightarrow> (Inl e, st)
             | (Inr u, st) \<Rightarrow> (Inr 0, st)))"

text \<open>
  \<open>raise SystemExit(main())\<close>: the process exits with the code \<open>main\<close> returns;
  an exception that nothing catches ends the interpreter with status 1.
\<close>

definition exit_status :: "(error + int) \<Rightarrow> int" where
  "exit_status r = (case r of Inl e \<Rightarrow> 1 | Inr code \<Rightarrow> code)"

section \<open>Notions used to state the properties\<close>

subsection \<open>The extractor, in the words of its description\<close>

text \<open>
  The trimmed lines of a manifest that are not comments and begin with the field marker.
\<close>

definition is_comment :: "string \<Rightarrow> bool" where
  "is_comment line = startswith line ''//''"

definition is_url_field :: "string \<Rightarrow> bool" where
  "is_url_field line = startswith line ''.url''"

definition url_lines :: "string list \<Rightarrow> string list" where
  "url_lines raws =
     filter (\<lambda>line. \<not> is_comment line \<and> is_url_field line) (map strip raws)"

text \<open>
  The text between the first pair of double-quote characters of a line; \<open>None\<close>
  when the line has fewer than two of them.
\<close>

definition quoted_value :: "string \<Rightarrow> string option" where
  "quoted_value line =
     (case dropWhile (\<lambda>c. c \<noteq> CHR 0x22) line of
        [] \<Rightarrow> None
      | q # rest \<Rightarrow>
          if CHR 0x22 \<in> set rest then Some (takeWhile (\<lambda>c. c \<noteq> CHR 0x22) rest)
          else None)"

definition quoted_values :: "string list \<Rightarrow> string list" where
  "quoted_values raws = List.map_filter quoted_value (url_lines raws)"

subsection \<open>Groups of a mapping\<close>

text \<open>Appending a sequence of values to the group of one folder, one after the other.\<close>

definition append_all :: "Dependencies \<Rightarrow> path \<Rightarrow> string list \<Rightarrow> Dependencies" where
  "append_all dependencies folder vs =
     foldl (\<lambda>d v. append_dep d folder v) dependencies vs"

text \<open>The group of a folder: the list under its key, empty when the key is absent.\<close>

definition urls_of :: "Dependencies \<Rightarrow> path \<Rightarrow> string list" where
  "urls_of dependencies folder =
     (case map_of dependencies folder of None \<Rightarrow> [] | Some urls \<Rightarrow> urls)"

subsection \<open>What one manifest contributes\<close>

text \<open>
  The values that the loop of \<open>_find_dependencies\<close> appends for the lines of one
  manifest, in order, or the exception that ends the loop.
\<close>

fun extract_urls :: "string list \<Rightarrow> error + string list" where
  "extract_urls [] = Inr []"
| "extract_urls (raw # raws) =
     (let line = strip raw in
      if startswith line ''//'' then extract_urls raws
      else if startswith line ''.url'' then
        (case index (split (CHR 0x22) line) 1 of
           Inl e \<Rightarrow> Inl e
         | Inr v \<Rightarrow>
             (case extract_urls raws of
                Inl e \<Rightarrow> Inl e
              | Inr vs \<Rightarrow> Inr (v # vs)))
      else extract_urls raws)"

subsection \<open>Manifests of a directory tree\<close>

text \<open>
  \<open>located children rel node\<close>: \<open>node\<close> is the entry at the relative path
  \<open>rel\<close> below a directory with the given children.
\<close>

inductive located :: "(string \<times> fsnode) list \<Rightarrow> path \<Rightarrow> fsnode \<Rightarrow> bool" where
  here: "(name, node) \<in> set children \<Longrightarrow> located children [name] node"
| below: "(name, Directory (Some sub)) \<in> set children \<Longrightarrow> located sub rel node
          \<Longrightarrow> located children (name # rel) node"

code_pred located .

text \<open>
  A manifest in scope: a regular file named \<open>build.zig.zon\<close> at the relative path
  \<open>rel\<close>; directly inside the root, or at any depth when the scan is recursive.
\<close>

definition in_scope :: "bool \<Rightarrow> (string \<times> fsnode) list \<Rightarrow> path \<Rightarrow> string option \<Rightarrow> bool" where
  "in_scope recursive children rel content \<longleftrightarrow>
     located children rel (RegularFile content) \<and> last rel = ZON
     \<and> (recursive \<or> length rel = 1)"

text \<open>
  The manifest files of the tree that the walk comes to, in the order of the walk. A place
  where the walk itself raises (a directory that cannot be listed, an entry that cannot be
  examined) is kept in the sequence as a file that cannot be read: both end the walk with
  \<open>OSError\<close>.
\<close>

function (sequential) manifests ::
  "path \<Rightarrow> (string \<times> fsnode) list option \<Rightarrow> bool \<Rightarrow> (path \<times> string option) list" where
  "manifests directory None recursive = [(directory, None)]"
| "manifests directory (Some []) recursive = []"
| "manifests directory (Some ((name, Directory listing) # rest)) recursive =
     (if recursive then manifests (directory @ [name]) listing recursive else [])
       @ manifests directory (Some rest) recursive"
| "manifests directory (Some ((name, RegularFile content) # rest)) recursive =
     (if name = ZON then [(directory @ [name], content)] else [])
       @ manifests directory (Some rest) recursive"
| "manifests directory (Some ((name, Special) # rest)) recursive =
     manifests directory (Some rest) recursive"
| "manifests directory (Some ((name, Inaccessible) # rest)) recursive =
     (directory @ [name], None) # manifests directory (Some rest) recursive"
  by pat_completeness auto

termination
  by (relation "measure (\<lambda>(directory, listing, recursive).
        size_option (size_list (size_prod (\<lambda>name. 0) size)) listing)") auto

text \<open>
  \<open>walkable recursive listing\<close>: the walk meets no directory that cannot be listed and
  no entry that cannot be examined.
\<close>

function (sequential) walkable :: "bool \<Rightarrow> (string \<times> fsnode) list option \<Rightarrow> bool" where
  "walkable recursive None = False"
| "walkable recursive (Some []) = True"
| "walkable recursive (Some ((name, Directory listing) # rest)) =
     ((recursive \<longrightarrow> walkable recursive listing) \<and> walkable recursive (Some rest))"
| "walkable recursive (Some ((name, RegularFile content) # rest)) =
     walkable recursive (Some rest)"
| "walkable recursive (Some ((name, Special) # rest)) = walkable recursive (Some rest)"
| "walkable recursive (Some ((name, Inaccessible) # rest)) = False"
  by pat_completeness auto

termination
  by (relation "measure (\<lambda>(recursive, listing).
        size_option (size_list (size_prod (\<lambda>name. 0) size)) listing)") auto

text \<open>\<open>_find_dependencies\<close> on a sequence of files, stopping at the first exception.\<close>

fun find_all :: "(path \<times> string option) list \<Rightarrow> Dependencies \<Rightarrow> error + Dependencies" where
  "find_all [] dependencies = Inr dependencies"
| "find_all ((file, content) # files) dependencies =
     (case find_dependencies file content dependencies of
        Inl e \<Rightarrow> Inl e
      | Inr dependencies' \<Rightarrow> find_all files dependencies')"

text \<open>The values of a readable manifest whose lines all extract; none otherwise.\<close>

definition values_of :: "string option \<Rightarrow> string list" where
  "values_of content =
     (case content of
        None \<Rightarrow> []
      | Some text \<Rightarrow> (case extract_urls (readlines text) of Inl e \<Rightarrow> [] | Inr vs \<Rightarrow> vs))"

text \<open>What a sequence of manifest files contributes to the group of one folder.\<close>

definition contributed :: "(path \<times> string option) list \<Rightarrow> path \<Rightarrow> string list" where
  "contributed files folder =
     concat (map (\<lambda>(file, content). if parent file = folder then values_of content else [])
                 files)"

subsection \<open>Invocations that succeeded\<close>

text \<open>
  \<open>all_ok zig h cs\<close>: each invocation of \<open>cs\<close>, made in turn after the invocations
  \<open>h\<close>, exited with status zero.
\<close>

fun all_ok :: "tool \<Rightarrow> invocation list \<Rightarrow> invocation list \<Rightarrow> bool" where
  "all_ok zig h [] = True"
| "all_ok zig h (c # cs) = (zig h c \<noteq> None \<and> all_ok zig (h @ [c]) cs)"

text \<open>
  \<open>trace_ok zig h cs r\<close>: the invocations \<open>cs\<close>, made after \<open>h\<close>, agree with the
  result \<open>r\<close>: all of them succeeded, or \<open>r\<close> is \<open>CalledProcessError\<close>, all but
  the last succeeded and the last one failed.
\<close>

definition trace_ok :: "tool \<Rightarrow> invocation list \<Rightarrow> invocation list \<Rightarrow> (error + 'a) \<Rightarrow> bool" where
  "trace_ok zig h cs r =
     (case r of
        Inr v \<Rightarrow> all_ok zig h cs
      | Inl e \<Rightarrow>
          all_ok zig h cs
          \<or> (cs \<noteq> [] \<and> all_ok zig h (butlast cs) \<and> zig (h @ butlast cs) (last cs) = None
              \<and> e = CalledProcessError))"

subsection \<open>A tool for the examples\<close>

text \<open>
  A tool that answers a fetch with the URL itself as the hash, so that a pinned URL and
  its base never agree, and that fails in save mode.
\<close>

fun save_fails :: "invocation list \<Rightarrow> invocation \<Rightarrow> string option" where
  "save_fails h (Fetch url) = Some url"
| "save_fails h (FetchSave cwd base) = None"

section \<open>Properties\<close>

lemma split_not_Nil: "split sep s \<noteq> []"
  by (induction s) (auto split: list.splits)

lemma split_no_sep: "sep \<notin> set s \<Longrightarrow> split sep s = [s]"
  by (induction s) auto

lemma split_at_first: "sep \<notin> set a \<Longrightarrow> split sep (a @ sep # b) = a # split sep b"
  by (induction a) auto

lemma get_base_no_fragment:
  "CHR ''#'' \<notin> set url \<Longrightarrow> get_base url = Inl (RuntimeError ''Unsupported URL format'')"
  by (simp add: get_base_def split_no_sep)

lemma get_base_fragment:
  "CHR ''#'' \<notin> set base \<Longrightarrow> get_base (base @ CHR ''#'' # rest) = Inr base"
  by (simp add: get_base_def split_at_first split_not_Nil)

lemma first_sep_decomp:
  "sep \<in> set s \<Longrightarrow> \<exists>a b. s = a @ sep # b \<and> sep \<notin> set a"
  by (metis split_list_first)

lemma get_base_cases:
  "(CHR ''#'' \<notin> set url \<and> get_base url = Inl (RuntimeError ''Unsupported URL format''))
   \<or> (\<exists>base rest. url = base @ CHR ''#'' # rest \<and> CHR ''#'' \<notin> set base \<and> get_base url = Inr base)"
proof (cases "CHR ''#'' \<in> set url")
  case True
  from first_sep_decomp [OF True] obtain a b
    where u: "url = a @ CHR ''#'' # b" and a: "CHR ''#'' \<notin> set a" by blast
  have "get_base (a @ CHR ''#'' # b) = Inr a" using a by (rule get_base_fragment)
  then have "get_base url = Inr a" unfolding u .
  with u a show ?thesis by blast
next
  case False
  from get_base_no_fragment [OF False] False show ?thesis by blast
qed


subsection \<open>Splitting at double quotes\<close>

lemma split_conv:
  "split sep s =
     takeWhile (\<lambda>c. c \<noteq> sep) s
       # (case dropWhile (\<lambda>c. c \<noteq> sep) s of [] \<Rightarrow> [] | q # rest \<Rightarrow> split sep rest)"
  by (induction s) (auto split: list.splits)

lemma index_split_1:
  "index (split sep s) 1 =
     (case dropWhile (\<lambda>c. c \<noteq> sep) s of
        [] \<Rightarrow> Inl IndexError
      | q # rest \<Rightarrow> Inr (takeWhile (\<lambda>c. c \<noteq> sep) rest))"
proof (cases "dropWhile (\<lambda>c. c \<noteq> sep) s")
  case Nil
  have "split sep s = [takeWhile (\<lambda>c. c \<noteq> sep) s]"
    using split_conv [of sep s] unfolding Nil by simp
  then show ?thesis unfolding Nil by (simp add: index_def)
next
  case (Cons q rest)
  have "split sep s = takeWhile (\<lambda>c. c \<noteq> sep) s # split sep rest"
    using split_conv [of sep s] unfolding Cons by simp
  moreover have "split sep rest ! 0 = takeWhile (\<lambda>c. c \<noteq> sep) rest"
    by (subst split_conv) simp
  moreover have "0 < length (split sep rest)"
    using split_not_Nil [of sep rest] by simp
  ultimately show ?thesis unfolding Cons by (simp add: index_def)
qed

lemma index_split_no_quote:
  "sep \<notin> set s \<Longrightarrow> index (split sep s) 1 = Inl IndexError"
  by (simp add: split_no_sep index_def)

lemma index_split_quoted:
  assumes "quoted_value line = Some v"
  shows "index (split (CHR 0x22) line) 1 = Inr v"
  using assms unfolding quoted_value_def index_split_1
  by (cases "dropWhile (\<lambda>c. c \<noteq> CHR 0x22) line") (auto split: if_splits)

lemma dropWhile_neq_Nil:
  "dropWhile (\<lambda>x. x \<noteq> c) s = [] \<Longrightarrow> count_list s c = 0"
  by (induction s) (auto split: if_splits)

lemma dropWhile_neq_Cons:
  "dropWhile (\<lambda>x. x \<noteq> c) s = q # rest \<Longrightarrow> q = c \<and> count_list s c = Suc (count_list rest c)"
  by (induction s) (auto split: if_splits)

lemma takeWhile_no_sep: "sep \<notin> set s \<Longrightarrow> takeWhile (\<lambda>c. c \<noteq> sep) s = s"
  by (induction s) auto

lemma quoted_value_None_iff:
  "quoted_value line = None \<longleftrightarrow> count_list line (CHR 0x22) < 2"
proof (cases "dropWhile (\<lambda>c. c \<noteq> CHR 0x22) line")
  case Nil
  from dropWhile_neq_Nil [OF Nil] have "count_list line (CHR 0x22) = 0" .
  moreover have "quoted_value line = None" unfolding quoted_value_def Nil by simp
  ultimately show ?thesis by simp
next
  case (Cons q rest)
  from dropWhile_neq_Cons [OF Cons]
  have c: "count_list line (CHR 0x22) = Suc (count_list rest (CHR 0x22))" by simp
  have "quoted_value line = None \<longleftrightarrow> CHR 0x22 \<notin> set rest"
    unfolding quoted_value_def Cons by simp
  also have "\<dots> \<longleftrightarrow> count_list rest (CHR 0x22) = 0"
    by (simp only: count_list_0_iff)
  also have "\<dots> \<longleftrightarrow> count_list line (CHR 0x22) < 2"
    unfolding c by arith
  finally show ?thesis .
qed

lemma one_quote_value:
  assumes "count_list line (CHR 0x22) = 1"
  shows "index (split (CHR 0x22) line) 1 = Inr (tl (dropWhile (\<lambda>c. c \<noteq> CHR 0x22) line))"
proof (cases "dropWhile (\<lambda>c. c \<noteq> CHR 0x22) line")
  case Nil
  from dropWhile_neq_Nil [OF Nil] assms show ?thesis by simp
next
  case (Cons q rest)
  from dropWhile_neq_Cons [OF Cons] assms
  have "count_list rest (CHR 0x22) = 0" by simp
  then have "CHR 0x22 \<notin> set rest" by (simp add: count_list_0_iff)
  then have "takeWhile (\<lambda>c. c \<noteq> CHR 0x22) rest = rest" by (rule takeWhile_no_sep)
  then show ?thesis unfolding index_split_1 Cons by simp
qed


lemma append_all_Nil: "append_all deps folder [] = deps"
  by (simp add: append_all_def)

lemma append_all_Cons:
  "append_all deps folder (v # vs) = append_all (append_dep deps folder v) folder vs"
  by (simp add: append_all_def)

lemma find_lines_extract:
  "find_lines folder raws deps =
     (case extract_urls raws of
        Inl e \<Rightarrow> Inl e
      | Inr vs \<Rightarrow> Inr (append_all deps folder vs))"
  by (induction raws arbitrary: deps)
     (auto simp: Let_def append_all_Nil append_all_Cons split: sum.splits)

lemma index_error: "index xs i = Inl e \<Longrightarrow> e = IndexError"
  by (auto simp: index_def split: if_splits)

lemma extract_urls_error: "extract_urls raws = Inl e \<Longrightarrow> e = IndexError"
  by (induction raws) (auto simp: Let_def split: if_splits sum.splits dest: index_error)

lemma url_lines_Nil: "url_lines [] = []"
  by (simp add: url_lines_def)

lemma url_lines_Cons:
  "url_lines (raw # raws) =
     (if \<not> startswith (strip raw) ''//'' \<and> startswith (strip raw) ''.url''
      then strip raw # url_lines raws else url_lines raws)"
  by (simp add: url_lines_def is_comment_def is_url_field_def)

lemma quoted_values_Nil: "quoted_values [] = []"
  by (simp add: quoted_values_def url_lines_Nil)

lemma quoted_values_Cons:
  "quoted_values (raw # raws) =
     (if \<not> startswith (strip raw) ''//'' \<and> startswith (strip raw) ''.url''
      then (case quoted_value (strip raw) of
              None \<Rightarrow> quoted_values raws
            | Some v \<Rightarrow> v # quoted_values raws)
      else quoted_values raws)"
  by (simp add: quoted_values_def url_lines_Cons split: option.splits)

lemma extract_urls_quoted:
  "\<forall>l\<in>set (url_lines raws). quoted_value l \<noteq> None
   \<Longrightarrow> extract_urls raws = Inr (quoted_values raws)"
proof (induction raws)
  case Nil
  show ?case by (simp add: quoted_values_Nil)
next
  case (Cons raw raws)
  have rest: "extract_urls raws = Inr (quoted_values raws)"
    using Cons by (simp add: url_lines_Cons split: if_splits)
  show ?case
  proof (cases "\<not> startswith (strip raw) ''//'' \<and> startswith (strip raw) ''.url''")
    case True
    then have "quoted_value (strip raw) \<noteq> None"
      using Cons.prems by (simp add: url_lines_Cons)
    then obtain v where v: "quoted_value (strip raw) = Some v" by blast
    from index_split_quoted [OF v]
    have "index (split (CHR 0x22) (strip raw)) 1 = Inr v" .
    with True rest v show ?thesis
      by (simp add: Let_def quoted_values_Cons)
  next
    case False
    with rest show ?thesis by (auto simp: Let_def quoted_values_Cons)
  qed
qed

lemma extract_urls_no_quote:
  "l \<in> set (url_lines raws) \<Longrightarrow> CHR 0x22 \<notin> set l \<Longrightarrow> extract_urls raws = Inl IndexError"
proof (induction raws)
  case Nil
  then show ?case by (simp add: url_lines_Nil)
next
  case (Cons raw raws)
  show ?case
  proof (cases "\<not> startswith (strip raw) ''//'' \<and> startswith (strip raw) ''.url''")
    case True
    show ?thesis
    proof (cases "index (split (CHR 0x22) (strip raw)) 1")
      case (Inl e)
      then have "e = IndexError" by (rule index_error)
      with Inl True show ?thesis by (simp add: Let_def)
    next
      case (Inr v)
      have "l \<noteq> strip raw"
      proof
        assume "l = strip raw"
        with Cons.prems(2) have "CHR 0x22 \<notin> set (strip raw)" by simp
        then have "index (split (CHR 0x22) (strip raw)) 1 = Inl IndexError"
          by (rule index_split_no_quote)
        with Inr show False by simp
      qed
      with Cons.prems(1) True have "l \<in> set (url_lines raws)"
        by (simp add: url_lines_Cons)
      then have "extract_urls raws = Inl IndexError" using Cons.prems(2) by (rule Cons.IH)
      with Inr True show ?thesis by (simp add: Let_def)
    qed
  next
    case False
    with Cons.prems(1) have "l \<in> set (url_lines raws)"
      by (simp add: url_lines_Cons split: if_splits)
    then have "extract_urls raws = Inl IndexError" using Cons.prems(2) by (rule Cons.IH)
    with False show ?thesis by (auto simp: Let_def)
  qed
qed

lemma extract_urls_empty_iff:
  "extract_urls raws = Inr [] \<longleftrightarrow> url_lines raws = []"
  by (induction raws)
     (auto simp: Let_def url_lines_Nil url_lines_Cons split: if_splits sum.splits)


lemma check_url_eq:
  assumes "get_base url = Inr base"
    and "zig (calls st) (Fetch url) = Some current"
    and "zig (calls st @ [Fetch url]) (Fetch base) = Some latest"
  shows "check_url zig update folder url st =
     (if current = latest then
        (Inr (), st\<lparr>stdout := stdout st @ [up_to_date_line base],
                       calls := calls st @ [Fetch url, Fetch base]\<rparr>)
      else if update then
        (case zig (calls st @ [Fetch url, Fetch base]) (FetchSave folder base) of
           None \<Rightarrow>
             (Inl CalledProcessError,
              st\<lparr>calls := calls st @ [Fetch url, Fetch base, FetchSave folder base]\<rparr>)
         | Some out \<Rightarrow>
             (Inr (), st\<lparr>stdout := stdout st @ [updated_line base current latest],
                            calls := calls st @ [Fetch url, Fetch base, FetchSave folder base]\<rparr>))
      else
        (Inr (), st\<lparr>stdout := stdout st @ [out_of_date_line base],
                       calls := calls st @ [Fetch url, Fetch base]\<rparr>))"
  using assms
  by (simp add: check_url_def get_hash_def run_def update_package_def stdout_write_def
           split: option.splits)

text \<open>
  Claim C3. For a declaration whose current hash (the answer to \<open>zig fetch url\<close>) equals
  its latest hash (the answer to \<open>zig fetch base\<close>), the loop body writes exactly the line
  \<open>[base] already up to date\<close> and invokes the tool only for the two fetches, never in
  save mode, whatever the update flag is.
\<close>

theorem up_to_date_never_updates:
  assumes "get_base url = Inr base"
    and "zig (calls st) (Fetch url) = Some current"
    and "zig (calls st @ [Fetch url]) (Fetch base) = Some latest"
    and "current = latest"
  shows "check_url zig update folder url st =
           (Inr (), st\<lparr>stdout := stdout st @ [''['' @ base @ ''] already up to date'' @ [CHR 0x0A]],
                          calls := calls st @ [Fetch url, Fetch base]\<rparr>)"
  using check_url_eq [OF assms(1-3), of update folder] assms(4)
  by (simp add: up_to_date_line_def)

theorem up_to_date_never_updates_witness:
  "check_url (\<lambda>h c. Some ''1220abcdef'') True [''proj''] ''https://example.com/pkg.tar.gz#abcdef1234'' initial =
     (Inr (), \<lparr>stdout = [''[https://example.com/pkg.tar.gz] already up to date'' @ [CHR 0x0A]],
                 calls = [Fetch ''https://example.com/pkg.tar.gz#abcdef1234'',
                          Fetch ''https://example.com/pkg.tar.gz'']\<rparr>)"
proof -
  have b: "get_base ''https://example.com/pkg.tar.gz#abcdef1234'' = Inr ''https://example.com/pkg.tar.gz''"
    by (simp add: get_base_def)
  show ?thesis
    using up_to_date_never_updates [OF b, of "\<lambda>h c. Some ''1220abcdef''" initial
        "''1220abcdef''" "''1220abcdef''" True "[''proj'']"]
    by (simp add: initial_def)
qed


lemma check_url_fetches_only:
  "set (calls (snd (check_url zig False folder url st))) \<subseteq> set (calls st) \<union> range Fetch"
  by (auto simp: check_url_def get_hash_def run_def stdout_write_def
           split: sum.splits option.splits)

lemma check_urls_fetches_only:
  "set (calls (snd (check_urls zig False folder urls st))) \<subseteq> set (calls st) \<union> range Fetch"
proof (induction urls arbitrary: st)
  case Nil
  show ?case by simp
next
  case (Cons url urls)
  obtain r st' where r: "check_url zig False folder url st = (r, st')" by (cases "check_url zig False folder url st")
  have 1: "set (calls st') \<subseteq> set (calls st) \<union> range Fetch"
    using check_url_fetches_only [of zig folder url st] r by simp
  show ?case
  proof (cases r)
    case (Inl e)
    with r 1 show ?thesis by simp
  next
    case (Inr u)
    have "set (calls (snd (check_urls zig False folder urls st'))) \<subseteq> set (calls st') \<union> range Fetch"
      by (rule Cons.IH)
    with 1 r Inr show ?thesis by auto
  qed
qed

lemma check_folders_fetches_only:
  "set (calls (snd (check_folders zig False deps st))) \<subseteq> set (calls st) \<union> range Fetch"
proof (induction deps arbitrary: st)
  case Nil
  show ?case by simp
next
  case (Cons d deps)
  obtain folder urls where d: "d = (folder, urls)" by (cases d)
  obtain r st' where r: "check_urls zig False folder urls st = (r, st')" by (cases "check_urls zig False folder urls st")
  have 1: "set (calls st') \<subseteq> set (calls st) \<union> range Fetch"
    using check_urls_fetches_only [of zig folder urls st] r by simp
  show ?case
  proof (cases r)
    case (Inl e)
    with r 1 d show ?thesis by simp
  next
    case (Inr u)
    have "set (calls (snd (check_folders zig False deps st'))) \<subseteq> set (calls st') \<union> range Fetch"
      by (rule Cons.IH)
    with 1 r Inr d show ?thesis by auto
  qed
qed

lemma main_fetches_only:
  "set (calls (snd (main zig root listing recursive False))) \<subseteq> range Fetch"
proof (cases "get_dependencies root listing recursive")
  case (Inl e)
  then show ?thesis by (simp add: main_def initial_def)
next
  case (Inr deps)
  have "set (calls (snd (check_folders zig False deps initial))) \<subseteq> range Fetch"
    using check_folders_fetches_only [of zig deps initial] by (simp add: initial_def)
  with Inr show ?thesis
    by (auto simp: main_def initial_def stdout_write_def split: prod.splits sum.splits)
qed

text \<open>
  Claim C7. For a declaration whose hashes differ, without the update flag, the loop body
  writes exactly the line \<open>[base] out of date\<close>; and a run without the update flag
  never invokes the tool in save mode.
\<close>

theorem out_of_date_never_updates:
  assumes "get_base url = Inr base"
    and "zig (calls st) (Fetch url) = Some current"
    and "zig (calls st @ [Fetch url]) (Fetch base) = Some latest"
    and "current \<noteq> latest"
  shows "check_url zig False folder url st =
           (Inr (), st\<lparr>stdout := stdout st @ [''['' @ base @ ''] out of date'' @ [CHR 0x0A]],
                          calls := calls st @ [Fetch url, Fetch base]\<rparr>)
         \<and> (\<forall>cwd b. FetchSave cwd b \<notin> set (calls (snd (main zig root listing recursive False))))"
proof
  show "check_url zig False folder url st =
           (Inr (), st\<lparr>stdout := stdout st @ [''['' @ base @ ''] out of date'' @ [CHR 0x0A]],
                          calls := calls st @ [Fetch url, Fetch base]\<rparr>)"
    using check_url_eq [OF assms(1-3), of False folder] assms(4)
    by (simp add: out_of_date_line_def)
  show "\<forall>cwd b. FetchSave cwd b \<notin> set (calls (snd (main zig root listing recursive False)))"
    using main_fetches_only [of zig root listing recursive] by auto
qed


theorem out_of_date_never_updates_witness:
  "check_url (\<lambda>h c. case c of Fetch u \<Rightarrow> Some u | FetchSave cwd b \<Rightarrow> None)
       False [''proj''] ''pkg#v1'' initial =
     (Inr (), \<lparr>stdout = [''[pkg] out of date'' @ [CHR 0x0A]],
                 calls = [Fetch ''pkg#v1'', Fetch ''pkg'']\<rparr>)
   \<and> (\<forall>cwd b. FetchSave cwd b \<notin> set (calls (snd
         (main (\<lambda>h c. case c of Fetch u \<Rightarrow> Some u | FetchSave cwd b \<Rightarrow> None) [''proj'']
            (Some [(ZON, RegularFile (Some (''.url = '' @ [CHR 0x22] @ ''pkg#v1'' @ [CHR 0x22])))])
            False False))))"
proof -
  have b: "get_base ''pkg#v1'' = Inr ''pkg''"
    by (simp add: get_base_def)
  show ?thesis
    using out_of_date_never_updates [OF b,
        of "\<lambda>h c. case c of Fetch u \<Rightarrow> Some u | FetchSave cwd b \<Rightarrow> None" initial
           "''pkg#v1''" "''pkg''" "[''proj'']" "[''proj'']"
           "(Some [(ZON, RegularFile (Some (''.url = '' @ [CHR 0x22] @ ''pkg#v1'' @ [CHR 0x22])))])" False]
    by (simp add: initial_def)
qed

text \<open>
  Claim C2, as the code has it. For a declaration whose hashes differ, with the update
  flag, the loop body invokes the tool in save mode exactly once, after the two fetches,
  with the fragment-stripped base URL as argument and the folder of the group as working
  directory. When that invocation exits with status zero the line written is exactly
  \<open>[base] updated first7(current) -> first7(latest)\<close>; when it fails, nothing is
  written for the declaration and the loop body ends with \<open>CalledProcessError\<close>.
\<close>

theorem update_saves_once_and_reports:
  assumes "get_base url = Inr base"
    and "zig (calls st) (Fetch url) = Some current"
    and "zig (calls st @ [Fetch url]) (Fetch base) = Some latest"
    and "current \<noteq> latest"
  shows "calls (snd (check_url zig True folder url st)) =
           calls st @ [Fetch url, Fetch base, FetchSave folder base]
         \<and> (zig (calls st @ [Fetch url, Fetch base]) (FetchSave folder base) \<noteq> None \<longrightarrow>
              fst (check_url zig True folder url st) = Inr ()
              \<and> stdout (snd (check_url zig True folder url st)) =
                    stdout st @ [''['' @ base @ ''] updated '' @ take 7 current
                                  @ '' -> '' @ take 7 latest @ [CHR 0x0A]])
         \<and> (zig (calls st @ [Fetch url, Fetch base]) (FetchSave folder base) = None \<longrightarrow>
              fst (check_url zig True folder url st) = Inl CalledProcessError
              \<and> stdout (snd (check_url zig True folder url st)) = stdout st)"
  using check_url_eq [OF assms(1-3), of True folder] assms(4)
  by (cases "zig (calls st @ [Fetch url, Fetch base]) (FetchSave folder base)")
     (simp_all add: updated_line_def HASH_DISPLAY_LEN_def)

text \<open>
  Claim C2 fails on the code where the save invocation fails: the hashes of \<open>pkg#v1\<close>
  and \<open>pkg\<close> differ, the update flag is set, the tool is invoked in save mode, and no
  line is written.
\<close>

theorem update_saves_once_and_reports_counterexample:
  "get_base ''pkg#v1'' = Inr ''pkg''
   \<and> save_fails [] (Fetch ''pkg#v1'') = Some ''pkg#v1''
   \<and> save_fails [Fetch ''pkg#v1''] (Fetch ''pkg'') = Some ''pkg''
   \<and> save_fails [Fetch ''pkg#v1'', Fetch ''pkg''] (FetchSave [''proj''] ''pkg'') = None
   \<and> check_url save_fails True [''proj''] ''pkg#v1'' initial =
     (Inl CalledProcessError,
      \<lparr>stdout = [],
         calls = [Fetch ''pkg#v1'', Fetch ''pkg'', FetchSave [''proj''] ''pkg'']\<rparr>)"
  by (simp add: check_url_def get_base_def get_hash_def run_def update_package_def
        initial_def)

theorem update_saves_once_and_reports_witness:
  "check_url (\<lambda>h c. if c = Fetch ''pkg#v1'' then Some ''1220aaaaaaaa'' else Some ''1220bbbbbbbb'')
       True [''proj''] ''pkg#v1'' initial =
     (Inr (), \<lparr>stdout = [''[pkg] updated 1220aaa -> 1220bbb'' @ [CHR 0x0A]],
                 calls = [Fetch ''pkg#v1'', Fetch ''pkg'', FetchSave [''proj''] ''pkg'']\<rparr>)
   \<and> check_url save_fails True [''proj''] ''pkg#v1'' initial =
     (Inl CalledProcessError,
      \<lparr>stdout = [],
         calls = [Fetch ''pkg#v1'', Fetch ''pkg'', FetchSave [''proj''] ''pkg'']\<rparr>)"
proof -
  have b: "get_base ''pkg#v1'' = Inr ''pkg''"
    by (simp add: get_base_def)
  have "calls (snd (check_url (\<lambda>h c. if c = Fetch ''pkg#v1'' then Some ''1220aaaaaaaa'' else Some ''1220bbbbbbbb'')
            True [''proj''] ''pkg#v1'' initial)) =
          [Fetch ''pkg#v1'', Fetch ''pkg'', FetchSave [''proj''] ''pkg'']
        \<and> fst (check_url (\<lambda>h c. if c = Fetch ''pkg#v1'' then Some ''1220aaaaaaaa'' else Some ''1220bbbbbbbb'')
            True [''proj''] ''pkg#v1'' initial) = Inr ()
        \<and> stdout (snd (check_url (\<lambda>h c. if c = Fetch ''pkg#v1'' then Some ''1220aaaaaaaa'' else Some ''1220bbbbbbbb'')
            True [''proj''] ''pkg#v1'' initial)) = [''[pkg] updated 1220aaa -> 1220bbb'' @ [CHR 0x0A]]"
    using update_saves_once_and_reports [OF b,
        of "(\<lambda>h c. if c = Fetch ''pkg#v1'' then Some ''1220aaaaaaaa'' else Some ''1220bbbbbbbb'')" initial
           "''1220aaaaaaaa''" "''1220bbbbbbbb''" "[''proj'']"]
    by (simp add: initial_def)
  then have ok: "check_url (\<lambda>h c. if c = Fetch ''pkg#v1'' then Some ''1220aaaaaaaa'' else Some ''1220bbbbbbbb'')
       True [''proj''] ''pkg#v1'' initial =
     (Inr (), \<lparr>stdout = [''[pkg] updated 1220aaa -> 1220bbb'' @ [CHR 0x0A]],
                 calls = [Fetch ''pkg#v1'', Fetch ''pkg'', FetchSave [''proj''] ''pkg'']\<rparr>)"
    by (cases "check_url (\<lambda>h c. if c = Fetch ''pkg#v1'' then Some ''1220aaaaaaaa'' else Some ''1220bbbbbbbb'')
            True [''proj''] ''pkg#v1'' initial") auto
  have "calls (snd (check_url save_fails True [''proj''] ''pkg#v1'' initial)) =
          [Fetch ''pkg#v1'', Fetch ''pkg'', FetchSave [''proj''] ''pkg'']
        \<and> fst (check_url save_fails True [''proj''] ''pkg#v1'' initial) = Inl CalledProcessError
        \<and> stdout (snd (check_url save_fails True [''proj''] ''pkg#v1'' initial)) = []"
    using update_saves_once_and_reports [OF b, of save_fails initial
           "''pkg#v1''" "''pkg''" "[''proj'']"]
    by (simp add: initial_def)
  then have failed: "check_url save_fails True [''proj''] ''pkg#v1'' initial =
     (Inl CalledProcessError,
      \<lparr>stdout = [],
         calls = [Fetch ''pkg#v1'', Fetch ''pkg'', FetchSave [''proj''] ''pkg'']\<rparr>)"
    by (cases "check_url save_fails True [''proj''] ''pkg#v1'' initial") auto
  from ok failed show ?thesis by (rule conjI)
qed

lemma all_ok_append:
  "all_ok zig h (a @ b) = (all_ok zig h a \<and> all_ok zig (h @ a) b)"
  by (induction a arbitrary: h) auto

lemma trace_ok_seq:
  assumes "trace_ok zig h e1 (Inr v)" and "trace_ok zig (h @ e1) e2 r"
  shows "trace_ok zig h (e1 @ e2) r"
proof (cases r)
  case (Inr w)
  with assms show ?thesis by (simp add: trace_ok_def all_ok_append)
next
  case (Inl e)
  show ?thesis
  proof (cases "e2 = []")
    case True
    with assms Inl show ?thesis by (simp add: trace_ok_def all_ok_append)
  next
    case False
    then have "butlast (e1 @ e2) = e1 @ butlast e2" "last (e1 @ e2) = last e2"
      by (simp_all add: butlast_append)
    with assms Inl False show ?thesis
      by (auto simp: trace_ok_def all_ok_append)
  qed
qed

lemma trace_ok_failed:
  assumes "trace_ok zig h (a @ c # b) r" and "zig (h @ a) c = None"
  shows "b = [] \<and> r = Inl CalledProcessError"
proof (cases "b = []")
  case True
  with assms show ?thesis
    by (cases r) (auto simp: trace_ok_def all_ok_append)
next
  case False
  then have "butlast (a @ c # b) = a @ c # butlast b"
    by (simp add: butlast_append)
  with assms False show ?thesis
    by (cases r) (auto simp: trace_ok_def all_ok_append)
qed

lemma check_url_trace:
  "\<exists>cs. calls (snd (check_url zig update folder url st)) = calls st @ cs
        \<and> trace_ok zig (calls st) cs (fst (check_url zig update folder url st))"
proof (cases "get_base url")
  case (Inl e)
  then have "check_url zig update folder url st = (Inl e, st)"
    by (simp add: check_url_def)
  then show ?thesis by (simp add: trace_ok_def)
next
  case (Inr base)
  show ?thesis
  proof (cases "zig (calls st) (Fetch url)")
    case None
    with Inr have "check_url zig update folder url st =
        (Inl CalledProcessError, st\<lparr>calls := calls st @ [Fetch url]\<rparr>)"
      by (simp add: check_url_def get_hash_def run_def)
    with None show ?thesis by (simp add: trace_ok_def)
  next
    case (Some current)
    note cur = this
    show ?thesis
    proof (cases "zig (calls st @ [Fetch url]) (Fetch base)")
      case None
      with Inr cur have "check_url zig update folder url st =
          (Inl CalledProcessError, st\<lparr>calls := calls st @ [Fetch url, Fetch base]\<rparr>)"
        by (simp add: check_url_def get_hash_def run_def)
      moreover have "butlast [Fetch url, Fetch base] = [Fetch url]" by simp
      ultimately show ?thesis using None cur by (simp add: trace_ok_def)
    next
      case (Some latest)
      note eq = check_url_eq [OF Inr cur Some, of update folder]
      show ?thesis
      proof (cases "zig (calls st @ [Fetch url, Fetch base]) (FetchSave folder base)")
        case None
        with eq cur Some show ?thesis by (auto simp: trace_ok_def)
      next
        case (Some out)
        with eq cur \<open>zig (calls st @ [Fetch url]) (Fetch base) = Some latest\<close>
        show ?thesis by (auto simp: trace_ok_def)
      qed
    qed
  qed
qed


lemma check_urls_trace:
  "\<exists>cs. calls (snd (check_urls zig update folder urls st)) = calls st @ cs
        \<and> trace_ok zig (calls st) cs (fst (check_urls zig update folder urls st))"
proof (induction urls arbitrary: st)
  case Nil
  show ?case by (simp add: trace_ok_def)
next
  case (Cons url urls)
  obtain r st' where r: "check_url zig update folder url st = (r, st')"
    by (cases "check_url zig update folder url st")
  from check_url_trace [of zig update folder url st] r
  obtain e1 where e1: "calls st' = calls st @ e1" "trace_ok zig (calls st) e1 r" by auto
  show ?case
  proof (cases r)
    case (Inl e)
    with r e1 show ?thesis by simp
  next
    case (Inr u)
    from Cons.IH [of st']
    obtain e2 where e2: "calls (snd (check_urls zig update folder urls st')) = calls st' @ e2"
      "trace_ok zig (calls st') e2 (fst (check_urls zig update folder urls st'))" by blast
    from e1(2) Inr e2(2) e1(1)
    have "trace_ok zig (calls st) (e1 @ e2) (fst (check_urls zig update folder urls st'))"
      by (simp add: trace_ok_seq)
    moreover have "calls (snd (check_urls zig update folder urls st')) = calls st @ e1 @ e2"
      using e1(1) e2(1) by simp
    ultimately show ?thesis using r Inr by auto
  qed
qed

lemma check_folders_trace:
  "\<exists>cs. calls (snd (check_folders zig update deps st)) = calls st @ cs
        \<and> trace_ok zig (calls st) cs (fst (check_folders zig update deps st))"
proof (induction deps arbitrary: st)
  case Nil
  show ?case by (simp add: trace_ok_def)
next
  case (Cons d deps)
  obtain folder urls where d: "d = (folder, urls)" by (cases d)
  obtain r st' where r: "check_urls zig update folder urls st = (r, st')"
    by (cases "check_urls zig update folder urls st")
  from check_urls_trace [of zig update folder urls st] r
  obtain e1 where e1: "calls st' = calls st @ e1" "trace_ok zig (calls st) e1 r" by auto
  show ?case
  proof (cases r)
    case (Inl e)
    with r e1 d show ?thesis by simp
  next
    case (Inr u)
    from Cons.IH [of st']
    obtain e2 where e2: "calls (snd (check_folders zig update deps st')) = calls st' @ e2"
      "trace_ok zig (calls st') e2 (fst (check_folders zig update deps st'))" by blast
    from e1(2) Inr e2(2) e1(1)
    have "trace_ok zig (calls st) (e1 @ e2) (fst (check_folders zig update deps st'))"
      by (simp add: trace_ok_seq)
    moreover have "calls (snd (check_folders zig update deps st')) = calls st @ e1 @ e2"
      using e1(1) e2(1) by simp
    ultimately show ?thesis using r Inr d by auto
  qed
qed

lemma main_trace:
  "trace_ok zig [] (calls (snd (main zig root listing recursive update)))
     (fst (main zig root listing recursive update))"
proof (cases "get_dependencies root listing recursive")
  case (Inl e)
  then show ?thesis by (simp add: main_def initial_def trace_ok_def)
next
  case (Inr deps)
  show ?thesis
  proof (cases "deps = []")
    case True
    with Inr show ?thesis by (simp add: main_def initial_def stdout_write_def trace_ok_def)
  next
    case False
    obtain r st where r: "check_folders zig update deps initial = (r, st)"
      by (cases "check_folders zig update deps initial")
    from check_folders_trace [of zig update deps initial] r
    have t: "trace_ok zig [] (calls st) r" by (simp add: initial_def)
    show ?thesis
    proof (cases r)
      case (Inl e)
      with Inr False r t show ?thesis by (simp add: main_def trace_ok_def)
    next
      case (Inr u)
      with \<open>get_dependencies root listing recursive = Inr deps\<close> False r t
      show ?thesis by (simp add: main_def trace_ok_def)
    qed
  qed
qed

text \<open>
  Claim C1, as the code has it. \<open>update_package\<close> runs the tool with \<open>check=True\<close>
  and nothing in \<open>main\<close> catches the exception: a save invocation that fails is the
  last invocation of the run, and the run ends with \<open>CalledProcessError\<close>. No later
  declaration is processed.
\<close>

theorem failed_update_ends_run:
  assumes "calls (snd (main zig root listing recursive update)) =
             before @ FetchSave folder base # after"
    and "zig before (FetchSave folder base) = None"
  shows "after = [] \<and> fst (main zig root listing recursive update) = Inl CalledProcessError"
proof -
  have "trace_ok zig [] (before @ FetchSave folder base # after)
          (fst (main zig root listing recursive update))"
    using main_trace [of zig root listing recursive update] assms(1) by simp
  moreover have "zig ([] @ before) (FetchSave folder base) = None"
    using assms(2) by simp
  ultimately show ?thesis by (rule trace_ok_failed)
qed


lemma two_urls_collected:
  "get_dependencies [''proj'']
     (Some [(ZON, RegularFile (Some (''.url = '' @ [CHR 0x22] @ ''a#1'' @ [CHR 0x22, CHR 0x0A]
                               @ ''.url = '' @ [CHR 0x22] @ ''b#1'' @ [CHR 0x22])))]) False
   = Inr [([''proj''], [''a#1'', ''b#1''])]"
  by (simp add: get_dependencies_def find_dependencies_def parent_def ZON_def strip_def
        isspace_def startswith_def index_def Let_def)


lemma two_urls_run:
  "main save_fails [''proj'']
     (Some [(ZON, RegularFile (Some (''.url = '' @ [CHR 0x22] @ ''a#1'' @ [CHR 0x22, CHR 0x0A]
                               @ ''.url = '' @ [CHR 0x22] @ ''b#1'' @ [CHR 0x22])))]) False True
   = (Inl CalledProcessError,
      \<lparr>stdout = [], calls = [Fetch ''a#1'', Fetch ''a'', FetchSave [''proj''] ''a'']\<rparr>)"
proof -
  have "check_url save_fails True [''proj''] ''a#1'' initial =
     (Inl CalledProcessError,
      \<lparr>stdout = [], calls = [Fetch ''a#1'', Fetch ''a'', FetchSave [''proj''] ''a'']\<rparr>)"
    by (simp add: check_url_def get_base_def get_hash_def run_def update_package_def
          initial_def)
  then show ?thesis
    unfolding main_def two_urls_collected by simp
qed

text \<open>
  Claim C1 fails on the code: a manifest declares \<open>a#1\<close> and \<open>b#1\<close>, the save
  invocation for the first fails, and the run ends there with \<open>CalledProcessError\<close>;
  the second declaration is never fetched.
\<close>

theorem failed_update_continues_counterexample:
  "get_dependencies [''proj'']
     (Some [(ZON, RegularFile (Some (''.url = '' @ [CHR 0x22] @ ''a#1'' @ [CHR 0x22, CHR 0x0A]
                               @ ''.url = '' @ [CHR 0x22] @ ''b#1'' @ [CHR 0x22])))]) False
   = Inr [([''proj''], [''a#1'', ''b#1''])]
   \<and> save_fails [Fetch ''a#1'', Fetch ''a''] (FetchSave [''proj''] ''a'') = None
   \<and> main save_fails [''proj'']
     (Some [(ZON, RegularFile (Some (''.url = '' @ [CHR 0x22] @ ''a#1'' @ [CHR 0x22, CHR 0x0A]
                               @ ''.url = '' @ [CHR 0x22] @ ''b#1'' @ [CHR 0x22])))]) False True
   = (Inl CalledProcessError,
      \<lparr>stdout = [], calls = [Fetch ''a#1'', Fetch ''a'', FetchSave [''proj''] ''a'']\<rparr>)"
  unfolding two_urls_collected two_urls_run by simp

theorem failed_update_ends_run_witness:
  "save_fails [Fetch ''a#1'', Fetch ''a''] (FetchSave [''proj''] ''a'') = None
   \<and> fst (main save_fails [''proj'']
     (Some [(ZON, RegularFile (Some (''.url = '' @ [CHR 0x22] @ ''a#1'' @ [CHR 0x22, CHR 0x0A]
                               @ ''.url = '' @ [CHR 0x22] @ ''b#1'' @ [CHR 0x22])))]) False True)
   = Inl CalledProcessError"
proof -
  have c: "calls (snd (main save_fails [''proj'']
     (Some [(ZON, RegularFile (Some (''.url = '' @ [CHR 0x22] @ ''a#1'' @ [CHR 0x22, CHR 0x0A]
                               @ ''.url = '' @ [CHR 0x22] @ ''b#1'' @ [CHR 0x22])))]) False True))
     = [Fetch ''a#1'', Fetch ''a''] @ FetchSave [''proj''] ''a'' # []"
    unfolding two_urls_run by simp
  have f: "save_fails [Fetch ''a#1'', Fetch ''a''] (FetchSave [''proj''] ''a'') = None"
    by simp
  from failed_update_ends_run [OF c f] f show ?thesis by simp
qed


lemma check_url_no_fragment:
  "CHR ''#'' \<notin> set url \<Longrightarrow>
   check_url zig update folder url st = (Inl (RuntimeError ''Unsupported URL format''), st)"
  by (simp add: check_url_def get_base_no_fragment)

lemma check_urls_no_fragment:
  "url \<in> set urls \<Longrightarrow> CHR ''#'' \<notin> set url \<Longrightarrow>
   \<exists>e. fst (check_urls zig update folder urls st) = Inl e"
proof (induction urls arbitrary: st)
  case Nil
  then show ?case by simp
next
  case (Cons u urls)
  obtain r st' where r: "check_url zig update folder u st = (r, st')"
    by (cases "check_url zig update folder u st")
  show ?case
  proof (cases r)
    case (Inl e)
    with r show ?thesis by simp
  next
    case (Inr v)
    have "u \<noteq> url"
    proof
      assume "u = url"
      with Cons.prems(2) r Inr show False by (simp add: check_url_no_fragment)
    qed
    with Cons.prems have "url \<in> set urls" by simp
    from Cons.IH [OF this Cons.prems(2), of st'] r Inr show ?thesis by simp
  qed
qed

lemma check_folders_no_fragment:
  "(folder, urls) \<in> set deps \<Longrightarrow> url \<in> set urls \<Longrightarrow> CHR ''#'' \<notin> set url \<Longrightarrow>
   \<exists>e. fst (check_folders zig update deps st) = Inl e"
proof (induction deps arbitrary: st)
  case Nil
  then show ?case by simp
next
  case (Cons d deps)
  obtain f us where d: "d = (f, us)" by (cases d)
  obtain r st' where r: "check_urls zig update f us st = (r, st')"
    by (cases "check_urls zig update f us st")
  show ?case
  proof (cases r)
    case (Inl e)
    with r d show ?thesis by simp
  next
    case (Inr v)
    have "d \<noteq> (folder, urls)"
    proof
      assume "d = (folder, urls)"
      with d have "f = folder" "us = urls" by simp_all
      with check_urls_no_fragment [OF Cons.prems(2,3), of zig update folder st] r Inr
      show False by simp
    qed
    with Cons.prems(1) have "(folder, urls) \<in> set deps" by simp
    from Cons.IH [OF this Cons.prems(2,3), of st'] r Inr d show ?thesis by simp
  qed
qed

lemma check_url_error_total:
  assumes "\<forall>h c. zig h c \<noteq> None"
    and "fst (check_url zig update folder url st) = Inl e"
  shows "e = RuntimeError ''Unsupported URL format''"
proof (cases "get_base url")
  case (Inl e')
  with get_base_cases [of url] have "e' = RuntimeError ''Unsupported URL format''" by auto
  with Inl assms(2) show ?thesis by (simp add: check_url_def)
next
  case (Inr base)
  have some: "\<exists>y. zig h c = Some y" for h c
    using assms(1) unfolding not_None_eq by blast
  from some obtain current where c: "zig (calls st) (Fetch url) = Some current"
    by blast
  from some obtain latest where l: "zig (calls st @ [Fetch url]) (Fetch base) = Some latest"
    by blast
  from some obtain out
    where s: "zig (calls st @ [Fetch url, Fetch base]) (FetchSave folder base) = Some out"
    by blast
  from check_url_eq [OF Inr c l, of update folder] s assms(2) show ?thesis
    by (simp split: if_splits)
qed

lemma check_urls_error_total:
  assumes "\<forall>h c. zig h c \<noteq> None"
  shows "fst (check_urls zig update folder urls st) = Inl e
         \<Longrightarrow> e = RuntimeError ''Unsupported URL format''"
proof (induction urls arbitrary: st)
  case Nil
  then show ?case by simp
next
  case (Cons u urls)
  obtain r st' where r: "check_url zig update folder u st = (r, st')"
    by (cases "check_url zig update folder u st")
  show ?case
  proof (cases r)
    case (Inl e')
    with r Cons.prems have "fst (check_url zig update folder u st) = Inl e" by simp
    with assms show ?thesis by (rule check_url_error_total)
  next
    case (Inr v)
    with r Cons.prems have "fst (check_urls zig update folder urls st') = Inl e" by simp
    then show ?thesis by (rule Cons.IH)
  qed
qed

lemma check_folders_error_total:
  assumes "\<forall>h c. zig h c \<noteq> None"
  shows "fst (check_folders zig update deps st) = Inl e
         \<Longrightarrow> e = RuntimeError ''Unsupported URL format''"
proof (induction deps arbitrary: st)
  case Nil
  then show ?case by simp
next
  case (Cons d deps)
  obtain f us where d: "d = (f, us)" by (cases d)
  obtain r st' where r: "check_urls zig update f us st = (r, st')"
    by (cases "check_urls zig update f us st")
  show ?case
  proof (cases r)
    case (Inl e')
    with r d Cons.prems have "fst (check_urls zig update f us st) = Inl e" by simp
    with assms show ?thesis by (rule check_urls_error_total)
  next
    case (Inr v)
    with r d Cons.prems have "fst (check_folders zig update deps st') = Inl e" by simp
    then show ?thesis by (rule Cons.IH)
  qed
qed

lemma main_nonempty:
  assumes "get_dependencies root listing recursive = Inr deps" and "deps \<noteq> []"
  shows "fst (main zig root listing recursive update) =
           (case fst (check_folders zig update deps initial) of
              Inl e \<Rightarrow> Inl e | Inr u \<Rightarrow> Inr 0)"
  using assms by (simp add: main_def split: prod.splits sum.splits)


lemma main_no_fragment:
  assumes "get_dependencies root listing recursive = Inr deps"
    and "(folder, urls) \<in> set deps" and "url \<in> set urls" and "CHR ''#'' \<notin> set url"
  shows "\<exists>e. fst (main zig root listing recursive update) = Inl e"
    and "(\<forall>h c. zig h c \<noteq> None) \<Longrightarrow>
         fst (main zig root listing recursive update) = Inl (RuntimeError ''Unsupported URL format'')"
proof -
  from assms(2) have ne: "deps \<noteq> []" by auto
  from check_folders_no_fragment [OF assms(2-4), of zig update initial]
  obtain e where e: "fst (check_folders zig update deps initial) = Inl e" by blast
  from main_nonempty [OF assms(1) ne, of zig update] e
  have m: "fst (main zig root listing recursive update) = Inl e" by simp
  then show "\<exists>e. fst (main zig root listing recursive update) = Inl e" by blast
  assume "\<forall>h c. zig h c \<noteq> None"
  from check_folders_error_total [OF this e] m
  show "fst (main zig root listing recursive update) = Inl (RuntimeError ''Unsupported URL format'')"
    by simp
qed

text \<open>
  Claim C4. \<open>get_base\<close> of \<open>https://example.com/pkg.tar.gz#abcdef1234\<close> is
  \<open>https://example.com/pkg.tar.gz\<close>. For a URL without \<open>#\<close> it raises
  \<open>RuntimeError("Unsupported URL format")\<close>; the loop body of \<open>main\<close> ends with that
  error before any invocation or write, and a run whose collected dependencies contain
  such a URL ends with an unhandled exception, hence a non-zero exit status (the format
  error itself whenever the tool never fails).
\<close>

theorem get_base_format_error:
  "get_base ''https://example.com/pkg.tar.gz#abcdef1234'' = Inr ''https://example.com/pkg.tar.gz''
   \<and> (CHR ''#'' \<notin> set url \<longrightarrow>
        get_base url = Inl (RuntimeError ''Unsupported URL format'')
        \<and> check_url zig update folder url st = (Inl (RuntimeError ''Unsupported URL format''), st)
        \<and> (get_dependencies root listing recursive = Inr deps
               \<and> (folder, urls) \<in> set deps \<and> url \<in> set urls \<longrightarrow>
             (\<exists>e. fst (main zig root listing recursive update) = Inl e)
             \<and> exit_status (fst (main zig root listing recursive update)) \<noteq> 0
             \<and> ((\<forall>h c. zig h c \<noteq> None) \<longrightarrow>
                  fst (main zig root listing recursive update)
                    = Inl (RuntimeError ''Unsupported URL format''))))"
proof (intro conjI impI)
  show "get_base ''https://example.com/pkg.tar.gz#abcdef1234'' = Inr ''https://example.com/pkg.tar.gz''"
    by (simp add: get_base_def)
next
  assume "CHR ''#'' \<notin> set url"
  then show "get_base url = Inl (RuntimeError ''Unsupported URL format'')"
    by (rule get_base_no_fragment)
next
  assume "CHR ''#'' \<notin> set url"
  then show "check_url zig update folder url st = (Inl (RuntimeError ''Unsupported URL format''), st)"
    by (rule check_url_no_fragment)
next
  assume h: "CHR ''#'' \<notin> set url"
    and d: "get_dependencies root listing recursive = Inr deps
               \<and> (folder, urls) \<in> set deps \<and> url \<in> set urls"
  from d h show "\<exists>e. fst (main zig root listing recursive update) = Inl e"
    by (blast intro: main_no_fragment(1))
  then show "exit_status (fst (main zig root listing recursive update)) \<noteq> 0"
    by (auto simp: exit_status_def)
next
  assume h: "CHR ''#'' \<notin> set url"
    and d: "get_dependencies root listing recursive = Inr deps
               \<and> (folder, urls) \<in> set deps \<and> url \<in> set urls"
    and t: "\<forall>h c. zig h c \<noteq> None"
  from d h t show "fst (main zig root listing recursive update)
                    = Inl (RuntimeError ''Unsupported URL format'')"
    by (blast intro: main_no_fragment(2))
qed

lemma no_fragment_collected:
  "get_dependencies [''proj'']
     (Some [(ZON, RegularFile (Some (''.url = '' @ [CHR 0x22] @ ''https://example.com/pkg.tar.gz'' @ [CHR 0x22])))])
     False
   = Inr [([''proj''], [''https://example.com/pkg.tar.gz''])]"
  by (simp add: get_dependencies_def find_dependencies_def parent_def ZON_def strip_def
        isspace_def startswith_def index_def Let_def)

theorem get_base_format_error_witness:
  "CHR ''#'' \<notin> set ''https://example.com/pkg.tar.gz''
   \<and> get_base ''https://example.com/pkg.tar.gz'' = Inl (RuntimeError ''Unsupported URL format'')
   \<and> fst (main (\<lambda>h c. Some ''1220aaaaaaaa'') [''proj'']
          (Some [(ZON, RegularFile (Some (''.url = '' @ [CHR 0x22] @ ''https://example.com/pkg.tar.gz'' @ [CHR 0x22])))])
          False True)
       = Inl (RuntimeError ''Unsupported URL format'')
   \<and> exit_status (fst (main (\<lambda>h c. Some ''1220aaaaaaaa'') [''proj'']
          (Some [(ZON, RegularFile (Some (''.url = '' @ [CHR 0x22] @ ''https://example.com/pkg.tar.gz'' @ [CHR 0x22])))])
          False True)) \<noteq> 0"
proof -
  have h: "CHR ''#'' \<notin> set ''https://example.com/pkg.tar.gz''" by simp
  have t: "\<forall>h c. (\<lambda>h c. Some ''1220aaaaaaaa'') h c \<noteq> None" by simp
  have m: "([''proj''], [''https://example.com/pkg.tar.gz''])
             \<in> set [([''proj''], [''https://example.com/pkg.tar.gz''])]"
    "''https://example.com/pkg.tar.gz'' \<in> set [''https://example.com/pkg.tar.gz'']" by simp_all
  from get_base_format_error [of "''https://example.com/pkg.tar.gz''"
      "\<lambda>h c. Some ''1220aaaaaaaa''" True "[''proj'']" initial "[''proj'']"
      "(Some [(ZON, RegularFile (Some (''.url = '' @ [CHR 0x22] @ ''https://example.com/pkg.tar.gz'' @ [CHR 0x22])))])"
      False "[([''proj''], [''https://example.com/pkg.tar.gz''])]"
      "[''https://example.com/pkg.tar.gz'']"]
    h t m no_fragment_collected
  show ?thesis by blast
qed


subsection \<open>Groups of the collected mapping\<close>

lemma map_of_append_dep:
  "map_of (append_dep deps folder v) k =
     (if k = folder then Some (urls_of deps folder @ [v]) else map_of deps k)"
  by (induction deps) (auto simp: urls_of_def)

lemma urls_of_append_dep:
  "urls_of (append_dep deps folder v) k =
     (if k = folder then urls_of deps folder @ [v] else urls_of deps k)"
  by (simp add: urls_of_def map_of_append_dep)

lemma urls_of_append_all:
  "urls_of (append_all deps folder vs) k =
     (if k = folder then urls_of deps folder @ vs else urls_of deps k)"
  by (induction vs arbitrary: deps)
     (simp_all add: append_all_Nil append_all_Cons urls_of_append_dep)

lemma keys_append_dep:
  "map fst (append_dep deps folder v) =
     (if folder \<in> set (map fst deps) then map fst deps else map fst deps @ [folder])"
  by (induction deps) (auto simp: rev_image_eqI)

lemma distinct_append_dep:
  "distinct (map fst deps) \<Longrightarrow> distinct (map fst (append_dep deps folder v))"
  by (simp add: keys_append_dep)

lemma nonempty_append_dep:
  "[] \<notin> snd ` set deps \<Longrightarrow> [] \<notin> snd ` set (append_dep deps folder v)"
  by (induction deps) (force split: if_splits)+

lemma distinct_append_all:
  "distinct (map fst deps) \<Longrightarrow> distinct (map fst (append_all deps folder vs))"
  by (induction vs arbitrary: deps)
     (simp_all add: append_all_Nil append_all_Cons distinct_append_dep)

lemma nonempty_append_all:
  "[] \<notin> snd ` set deps \<Longrightarrow> [] \<notin> snd ` set (append_all deps folder vs)"
proof (induction vs arbitrary: deps)
  case Nil
  then show ?case by (simp add: append_all_Nil)
next
  case (Cons v vs)
  from nonempty_append_dep [OF Cons.prems]
  have "[] \<notin> snd ` set (append_dep deps folder v)" .
  then show ?case unfolding append_all_Cons by (rule Cons.IH)
qed

lemma append_all_head:
  "append_all ((folder, us) # rest) folder vs = (folder, us @ vs) # rest"
  by (induction vs arbitrary: us) (simp_all add: append_all_Nil append_all_Cons)

lemma append_all_empty:
  "append_all [] folder vs = (if vs = [] then [] else [(folder, vs)])"
proof (cases vs)
  case Nil
  then show ?thesis by (simp add: append_all_Nil)
next
  case (Cons v rest)
  have "append_all [] folder (v # rest) = append_all [(folder, [v])] folder rest"
    by (simp add: append_all_Cons)
  also have "\<dots> = [(folder, [v] @ rest)]" by (rule append_all_head)
  finally show ?thesis using Cons by simp
qed

lemma urls_of_all_empty:
  assumes "[] \<notin> snd ` set deps"
  shows "deps = [] \<longleftrightarrow> (\<forall>k. urls_of deps k = [])"
proof
  assume "deps = []"
  then show "\<forall>k. urls_of deps k = []" by (simp add: urls_of_def)
next
  assume a: "\<forall>k. urls_of deps k = []"
  show "deps = []"
  proof (cases deps)
    case Nil
    then show ?thesis .
  next
    case (Cons d rest)
    obtain k us where d: "d = (k, us)" by (cases d)
    with Cons assms have "us \<noteq> []" by auto
    moreover from Cons d have "urls_of deps k = us" by (simp add: urls_of_def)
    ultimately show ?thesis using a by simp
  qed
qed


text \<open>
  Claim C5, as the code has it. For a manifest whose \<open>.url\<close> lines (trimmed, not
  comments) each hold at least two double quotes, \<open>_find_dependencies\<close> appends to the
  group of the manifest's folder exactly the quoted values of those lines, the text
  between the first pair of double quotes of each, in file order; a comment line
  contributes nothing, whatever it contains. Starting from an empty mapping the result is
  that one group, or no group at all when there is no such line.
\<close>

theorem extractor_returns_quoted_values:
  assumes "\<forall>line \<in> set (url_lines (readlines text)). 2 \<le> count_list line (CHR 0x22)"
  shows "find_dependencies file (Some text) deps =
           Inr (append_all deps (parent file) (quoted_values (readlines text)))
         \<and> urls_of (append_all deps (parent file) (quoted_values (readlines text))) (parent file) =
             urls_of deps (parent file) @ quoted_values (readlines text)
         \<and> find_dependencies file (Some text) [] =
             Inr (if quoted_values (readlines text) = [] then []
                  else [(parent file, quoted_values (readlines text))])"
proof -
  have "\<forall>line \<in> set (url_lines (readlines text)). quoted_value line \<noteq> None"
    using assms by (auto simp: quoted_value_None_iff)
  from extract_urls_quoted [OF this]
  have e: "extract_urls (readlines text) = Inr (quoted_values (readlines text))" .
  have 1: "find_dependencies file (Some text) d =
             Inr (append_all d (parent file) (quoted_values (readlines text)))" for d
    by (simp add: find_dependencies_def find_lines_extract e)
  from 1 [of deps] 1 [of "[]"] show ?thesis
    by (simp add: urls_of_append_all append_all_empty)
qed

text \<open>
  Claim C5 fails on the code for a manifest whose \<open>.url\<close> line holds one double quote:
  the line has no quoted value, and \<open>_find_dependencies\<close> still appends one, the text
  after the quote.
\<close>

theorem extractor_returns_quoted_values_counterexample:
  "url_lines (readlines (''.url = '' @ [CHR 0x22] @ ''pkg#1,''))
     = [''.url = '' @ [CHR 0x22] @ ''pkg#1,'']
   \<and> quoted_values (readlines (''.url = '' @ [CHR 0x22] @ ''pkg#1,'')) = []
   \<and> find_dependencies [''proj'', ZON] (Some (''.url = '' @ [CHR 0x22] @ ''pkg#1,'')) []
     = Inr [([''proj''], [''pkg#1,''])]"
  by (simp add: quoted_values_def quoted_value_def url_lines_def is_comment_def
        is_url_field_def find_dependencies_def parent_def ZON_def strip_def isspace_def
        startswith_def index_def Let_def)

theorem extractor_returns_quoted_values_witness:
  "url_lines (readlines (''// .url = '' @ [CHR 0x22] @ ''x#0'' @ [CHR 0x22, CHR 0x0A]
          @ ''  .url = '' @ [CHR 0x22] @ ''a#1'' @ [CHR 0x22] @ '','' @ [CHR 0x0D, CHR 0x0A]
          @ ''.hash = '' @ [CHR 0x22] @ ''1220'' @ [CHR 0x22, CHR 0x0A, CHR 0x09]
          @ ''.url = '' @ [CHR 0x22] @ ''b#2'' @ [CHR 0x22]))
     = [''.url = '' @ [CHR 0x22] @ ''a#1'' @ [CHR 0x22] @ '','', ''.url = '' @ [CHR 0x22] @ ''b#2'' @ [CHR 0x22]]
   \<and> find_dependencies [''proj'', ZON] (Some (''// .url = '' @ [CHR 0x22] @ ''x#0'' @ [CHR 0x22, CHR 0x0A]
          @ ''  .url = '' @ [CHR 0x22] @ ''a#1'' @ [CHR 0x22] @ '','' @ [CHR 0x0D, CHR 0x0A]
          @ ''.hash = '' @ [CHR 0x22] @ ''1220'' @ [CHR 0x22, CHR 0x0A, CHR 0x09]
          @ ''.url = '' @ [CHR 0x22] @ ''b#2'' @ [CHR 0x22])) []
     = Inr [([''proj''], [''a#1'', ''b#2''])]"
proof -
  have u: "url_lines (readlines (''// .url = '' @ [CHR 0x22] @ ''x#0'' @ [CHR 0x22, CHR 0x0A]
          @ ''  .url = '' @ [CHR 0x22] @ ''a#1'' @ [CHR 0x22] @ '','' @ [CHR 0x0D, CHR 0x0A]
          @ ''.hash = '' @ [CHR 0x22] @ ''1220'' @ [CHR 0x22, CHR 0x0A, CHR 0x09]
          @ ''.url = '' @ [CHR 0x22] @ ''b#2'' @ [CHR 0x22]))
     = [''.url = '' @ [CHR 0x22] @ ''a#1'' @ [CHR 0x22] @ '','', ''.url = '' @ [CHR 0x22] @ ''b#2'' @ [CHR 0x22]]"
    by (simp add: url_lines_def is_comment_def is_url_field_def strip_def isspace_def
          startswith_def)
  have h: "\<forall>line \<in> set (url_lines (readlines (''// .url = '' @ [CHR 0x22] @ ''x#0'' @ [CHR 0x22, CHR 0x0A]
          @ ''  .url = '' @ [CHR 0x22] @ ''a#1'' @ [CHR 0x22] @ '','' @ [CHR 0x0D, CHR 0x0A]
          @ ''.hash = '' @ [CHR 0x22] @ ''1220'' @ [CHR 0x22, CHR 0x0A, CHR 0x09]
          @ ''.url = '' @ [CHR 0x22] @ ''b#2'' @ [CHR 0x22]))).
             2 \<le> count_list line (CHR 0x22)"
    unfolding u by simp
  have q: "quoted_values (readlines (''// .url = '' @ [CHR 0x22] @ ''x#0'' @ [CHR 0x22, CHR 0x0A]
          @ ''  .url = '' @ [CHR 0x22] @ ''a#1'' @ [CHR 0x22] @ '','' @ [CHR 0x0D, CHR 0x0A]
          @ ''.hash = '' @ [CHR 0x22] @ ''1220'' @ [CHR 0x22, CHR 0x0A, CHR 0x09]
          @ ''.url = '' @ [CHR 0x22] @ ''b#2'' @ [CHR 0x22])) = [''a#1'', ''b#2'']"
    unfolding quoted_values_def u by (simp add: quoted_value_def)
  have "find_dependencies [''proj'', ZON] (Some (''// .url = '' @ [CHR 0x22] @ ''x#0'' @ [CHR 0x22, CHR 0x0A]
          @ ''  .url = '' @ [CHR 0x22] @ ''a#1'' @ [CHR 0x22] @ '','' @ [CHR 0x0D, CHR 0x0A]
          @ ''.hash = '' @ [CHR 0x22] @ ''1220'' @ [CHR 0x22, CHR 0x0A, CHR 0x09]
          @ ''.url = '' @ [CHR 0x22] @ ''b#2'' @ [CHR 0x22])) []
     = Inr (if [''a#1'', ''b#2''] = [] then [] else [(parent [''proj'', ZON], [''a#1'', ''b#2''])])"
    using conjunct2 [OF conjunct2 [OF extractor_returns_quoted_values [OF h, of "[''proj'', ZON]" "[]"]]]
    unfolding q .
  then have "find_dependencies [''proj'', ZON] (Some (''// .url = '' @ [CHR 0x22] @ ''x#0'' @ [CHR 0x22, CHR 0x0A]
          @ ''  .url = '' @ [CHR 0x22] @ ''a#1'' @ [CHR 0x22] @ '','' @ [CHR 0x0D, CHR 0x0A]
          @ ''.hash = '' @ [CHR 0x22] @ ''1220'' @ [CHR 0x22, CHR 0x0A, CHR 0x09]
          @ ''.url = '' @ [CHR 0x22] @ ''b#2'' @ [CHR 0x22])) []
     = Inr [([''proj''], [''a#1'', ''b#2''])]"
    by (simp add: parent_def)
  with u show ?thesis by (rule conjI)
qed


subsection \<open>The walk over the tree\<close>

lemma find_all_append:
  "find_all (a @ b) deps =
     (case find_all a deps of Inl e \<Rightarrow> Inl e | Inr deps' \<Rightarrow> find_all b deps')"
  by (induction a arbitrary: deps) (auto split: sum.splits)

lemma collect_manifests:
  "collect_dependencies directory listing deps recursive =
     find_all (manifests directory listing recursive) deps"
  by (induction directory listing deps recursive rule: collect_dependencies.induct)
     (auto simp: find_all_append find_dependencies_def split: sum.splits)

lemma located_nonempty: "located children rel node \<Longrightarrow> rel \<noteq> []"
  by (erule located.cases) simp_all

lemma manifests_here:
  "(name, RegularFile c) \<in> set children \<Longrightarrow> name = ZON
   \<Longrightarrow> (directory @ [name], c) \<in> set (manifests directory (Some children) recursive)"
proof (induction children)
  case Nil
  then show ?case by simp
next
  case (Cons child children)
  obtain n node where child: "child = (n, node)" by (cases child)
  show ?case
  proof (cases "child = (name, RegularFile c)")
    case True
    show ?thesis unfolding True using Cons.prems(2) by simp
  next
    case False
    with Cons have "(directory @ [name], c) \<in> set (manifests directory (Some children) recursive)"
      by simp
    then show ?thesis unfolding child by (cases node) simp_all
  qed
qed

lemma manifests_below:
  "(name, Directory listing) \<in> set children
   \<Longrightarrow> set (manifests (directory @ [name]) listing True)
         \<subseteq> set (manifests directory (Some children) True)"
proof (induction children)
  case Nil
  then show ?case by simp
next
  case (Cons child children)
  obtain n node where child: "child = (n, node)" by (cases child)
  show ?case
  proof (cases "child = (name, Directory listing)")
    case True
    show ?thesis unfolding True by auto
  next
    case False
    with Cons have "set (manifests (directory @ [name]) listing True)
                      \<subseteq> set (manifests directory (Some children) True)" by simp
    then show ?thesis unfolding child by (cases node) auto
  qed
qed

lemma located_manifest:
  "located children rel node \<Longrightarrow> node = RegularFile c \<Longrightarrow> last rel = ZON
   \<Longrightarrow> recursive \<or> length rel = 1
   \<Longrightarrow> (directory @ rel, c) \<in> set (manifests directory (Some children) recursive)"
proof (induction arbitrary: directory rule: located.induct)
  case (here name node children)
  then show ?case using manifests_here [of name c children directory recursive] by simp
next
  case (below name sub children rel node)
  from below.hyps(2) have ne: "rel \<noteq> []" by (rule located_nonempty)
  with below.prems(3) have r: recursive by (cases rel) simp_all
  from ne below.prems(2) have "last rel = ZON" by simp
  from below.IH [OF below.prems(1) this, of "directory @ [name]"] r
  have "((directory @ [name]) @ rel, c) \<in> set (manifests (directory @ [name]) (Some sub) True)"
    by simp
  with manifests_below [OF below.hyps(1), of directory] r show ?case by auto
qed

lemma located_Cons:
  "located children rel node \<Longrightarrow> located (child # children) rel node"
  by (induction rule: located.induct) (auto intro: located.intros)

lemma manifest_located:
  "(p, c) \<in> set (manifests directory listing recursive)
   \<Longrightarrow> c \<noteq> None \<or> walkable recursive listing
   \<Longrightarrow> \<exists>children rel. listing = Some children \<and> p = directory @ rel
         \<and> located children rel (RegularFile c) \<and> last rel = ZON
         \<and> (recursive \<or> length rel = 1)"
proof (induction directory listing recursive rule: manifests.induct)
  case (1 directory recursive)
  then show ?case by auto
next
  case (2 directory recursive)
  then show ?case by simp
next
  case (3 directory name listing rest recursive)
  from "3.prems"(1) consider
      (deep) "recursive" "(p, c) \<in> set (manifests (directory @ [name]) listing recursive)"
    | (rest) "(p, c) \<in> set (manifests directory (Some rest) recursive)"
    by (auto split: if_splits)
  then show ?case
  proof cases
    case deep
    from "3.prems"(2) deep(1) have "c \<noteq> None \<or> walkable recursive listing" by auto
    from "3.IH"(1) [OF deep this] obtain sub rel where rel: "listing = Some sub"
      "p = (directory @ [name]) @ rel"
      "located sub rel (RegularFile c)" "last rel = ZON" by blast
    from rel(3) have ne: "rel \<noteq> []" by (rule located_nonempty)
    have "located ((name, Directory listing) # rest) (name # rel) (RegularFile c)"
      using rel(3) unfolding rel(1) by (intro located.below [of name sub]) simp_all
    with rel ne deep(1) show ?thesis
      by (intro exI [of _ "(name, Directory listing) # rest"] exI [of _ "name # rel"]) simp
  next
    case rest
    from "3.prems"(2) have "c \<noteq> None \<or> walkable recursive (Some rest)" by auto
    from "3.IH"(2) [OF rest this] obtain rel where rel: "p = directory @ rel"
      "located rest rel (RegularFile c)" "last rel = ZON" "recursive \<or> length rel = 1" by auto
    from rel(2) have "located ((name, Directory listing) # rest) rel (RegularFile c)"
      by (rule located_Cons)
    with rel show ?thesis by blast
  qed
next
  case (4 directory name content rest recursive)
  from "4.prems"(1) consider
      (zon) "name = ZON" "p = directory @ [name]" "c = content"
    | (rest) "(p, c) \<in> set (manifests directory (Some rest) recursive)"
    by (auto split: if_splits)
  then show ?case
  proof cases
    case zon
    have "located ((name, RegularFile content) # rest) [name] (RegularFile content)"
      by (rule located.here) simp
    with zon show ?thesis
      by (intro exI [of _ "(name, RegularFile content) # rest"] exI [of _ "[name]"]) simp
  next
    case rest
    from "4.prems"(2) have "c \<noteq> None \<or> walkable recursive (Some rest)" by auto
    from "4.IH" [OF rest this] obtain rel where rel: "p = directory @ rel"
      "located rest rel (RegularFile c)" "last rel = ZON" "recursive \<or> length rel = 1" by auto
    from rel(2) have "located ((name, RegularFile content) # rest) rel (RegularFile c)"
      by (rule located_Cons)
    with rel show ?thesis by blast
  qed
next
  case (5 directory name rest recursive)
  from "5.prems" have "(p, c) \<in> set (manifests directory (Some rest) recursive)"
    "c \<noteq> None \<or> walkable recursive (Some rest)" by auto
  from "5.IH" [OF this] obtain rel where rel: "p = directory @ rel"
    "located rest rel (RegularFile c)" "last rel = ZON" "recursive \<or> length rel = 1" by auto
  from rel(2) have "located ((name, Special) # rest) rel (RegularFile c)"
    by (rule located_Cons)
  with rel show ?case by blast
next
  case (6 directory name rest recursive)
  from "6.prems" have "(p, c) \<in> set (manifests directory (Some rest) recursive)"
    "c \<noteq> None \<or> walkable recursive (Some rest)" by auto
  from "6.IH" [OF this] obtain rel where rel: "p = directory @ rel"
    "located rest rel (RegularFile c)" "last rel = ZON" "recursive \<or> length rel = 1" by auto
  from rel(2) have "located ((name, Inaccessible) # rest) rel (RegularFile c)"
    by (rule located_Cons)
  with rel show ?case by blast
qed

lemma manifests_scope:
  assumes "c \<noteq> None \<or> walkable recursive (Some children)"
  shows "(p, c) \<in> set (manifests directory (Some children) recursive)
         \<longleftrightarrow> (\<exists>rel. p = directory @ rel \<and> in_scope recursive children rel c)"
proof
  assume "(p, c) \<in> set (manifests directory (Some children) recursive)"
  from manifest_located [OF this assms]
  show "\<exists>rel. p = directory @ rel \<and> in_scope recursive children rel c"
    by (auto simp: in_scope_def)
next
  assume "\<exists>rel. p = directory @ rel \<and> in_scope recursive children rel c"
  then obtain rel where "p = directory @ rel" "located children rel (RegularFile c)"
    "last rel = ZON" "recursive \<or> length rel = 1" by (auto simp: in_scope_def)
  with located_manifest [of children rel "RegularFile c" c recursive directory]
  show "(p, c) \<in> set (manifests directory (Some children) recursive)" by simp
qed

lemma find_dependencies_Inr:
  assumes "find_dependencies file content deps = Inr deps'"
  shows "\<exists>text vs. content = Some text \<and> extract_urls (readlines text) = Inr vs
           \<and> values_of content = vs \<and> deps' = append_all deps (parent file) vs"
proof (cases content)
  case None
  with assms show ?thesis by (simp add: find_dependencies_def)
next
  case (Some t)
  with assms have f: "find_lines (parent file) (readlines t) deps = Inr deps'"
    by (simp add: find_dependencies_def)
  show ?thesis
  proof (cases "extract_urls (readlines t)")
    case (Inl e)
    with f show ?thesis by (simp add: find_lines_extract)
  next
    case (Inr vs)
    with f have "deps' = append_all deps (parent file) vs" by (simp add: find_lines_extract)
    with Some Inr show ?thesis by (simp add: values_of_def)
  qed
qed

lemma contributed_Nil: "contributed [] k = []"
  by (simp add: contributed_def)

lemma contributed_Cons:
  "contributed ((p, c) # ms) k = (if parent p = k then values_of c else []) @ contributed ms k"
  by (simp add: contributed_def)

lemma contributed_append:
  "contributed (a @ b) k = contributed a k @ contributed b k"
  by (simp add: contributed_def)

lemma find_all_Inr:
  "find_all ms deps = Inr deps' \<Longrightarrow>
     (\<forall>(p, c) \<in> set ms. \<exists>text vs. c = Some text \<and> extract_urls (readlines text) = Inr vs)
     \<and> (\<forall>k. urls_of deps' k = urls_of deps k @ contributed ms k)
     \<and> (distinct (map fst deps) \<longrightarrow> distinct (map fst deps'))
     \<and> ([] \<notin> snd ` set deps \<longrightarrow> [] \<notin> snd ` set deps')"
proof (induction ms arbitrary: deps)
  case Nil
  then show ?case by (simp add: contributed_Nil)
next
  case (Cons m ms)
  obtain p c where m: "m = (p, c)" by (cases m)
  show ?case
  proof (cases "find_dependencies p c deps")
    case (Inl e)
    with Cons.prems m show ?thesis by simp
  next
    case (Inr d1)
    from find_dependencies_Inr [OF Inr] obtain body vs where
      c: "c = Some body" "extract_urls (readlines body) = Inr vs" "values_of c = vs"
      and d1: "d1 = append_all deps (parent p) vs" by blast
    from Cons.prems m Inr have "find_all ms d1 = Inr deps'" by simp
    from Cons.IH [OF this] have
      ih1: "\<forall>(p, c) \<in> set ms. \<exists>text vs. c = Some text \<and> extract_urls (readlines text) = Inr vs"
      and ih2: "\<forall>k. urls_of deps' k = urls_of d1 k @ contributed ms k"
      and ih3: "distinct (map fst d1) \<longrightarrow> distinct (map fst deps')"
      and ih4: "[] \<notin> snd ` set d1 \<longrightarrow> [] \<notin> snd ` set deps'" by blast+
    have 1: "\<forall>(p, c) \<in> set (m # ms). \<exists>text vs. c = Some text \<and> extract_urls (readlines text) = Inr vs"
      using ih1 m c by simp
    have 2: "\<forall>k. urls_of deps' k = urls_of deps k @ contributed (m # ms) k"
      using ih2 c(3) unfolding m d1 by (simp add: urls_of_append_all contributed_Cons)
    have 3: "distinct (map fst deps) \<longrightarrow> distinct (map fst deps')"
      using ih3 unfolding d1 by (simp add: distinct_append_all)
    have 4: "[] \<notin> snd ` set deps \<longrightarrow> [] \<notin> snd ` set deps'"
      using ih4 nonempty_append_all [of deps "parent p" vs] unfolding d1 by blast
    from 1 2 3 4 show ?thesis by blast
  qed
qed


lemma contributed_member:
  assumes "(p, c) \<in> set ms" and "parent p = k"
  shows "\<exists>before after. contributed ms k = before @ values_of c @ after"
proof -
  from assms(1) obtain a b where "ms = a @ (p, c) # b" by (meson split_list)
  then have "contributed ms k = contributed a k @ values_of c @ contributed b k"
    using assms(2) by (simp add: contributed_append contributed_Cons)
  then show ?thesis by blast
qed

lemma contributed_elem:
  "u \<in> set (contributed ms k) \<Longrightarrow> \<exists>p c. (p, c) \<in> set ms \<and> parent p = k \<and> u \<in> set (values_of c)"
  by (auto simp: contributed_def split: if_splits)

lemma contributed_all_empty:
  "(\<forall>k. contributed ms k = []) \<longleftrightarrow> (\<forall>(p, c) \<in> set ms. values_of c = [])"
proof
  assume a: "\<forall>k. contributed ms k = []"
  show "\<forall>(p, c) \<in> set ms. values_of c = []"
  proof (clarify)
    fix p c assume "(p, c) \<in> set ms"
    from contributed_member [OF this refl] a show "values_of c = []" by simp
  qed
next
  assume "\<forall>(p, c) \<in> set ms. values_of c = []"
  then show "\<forall>k. contributed ms k = []"
    by (auto simp: contributed_def split: if_splits)
qed


lemma get_dependencies_Inr:
  assumes "get_dependencies root listing recursive = Inr deps"
  shows "distinct (map fst deps)"
    and "[] \<notin> snd ` set deps"
    and "urls_of deps k = contributed (manifests root listing recursive) k"
    and "(p, c) \<in> set (manifests root listing recursive)
         \<Longrightarrow> \<exists>body vs. c = Some body \<and> extract_urls (readlines body) = Inr vs"
proof -
  from assms have "find_all (manifests root listing recursive) [] = Inr deps"
    by (simp add: get_dependencies_def collect_manifests)
  note f = find_all_Inr [OF this]
  from f show "distinct (map fst deps)" by simp
  from f show "[] \<notin> snd ` set deps" by simp
  from f show "urls_of deps k = contributed (manifests root listing recursive) k"
    by (simp add: urls_of_def)
  from f show "(p, c) \<in> set (manifests root listing recursive)
         \<Longrightarrow> \<exists>body vs. c = Some body \<and> extract_urls (readlines body) = Inr vs"
    by blast
qed

lemma in_scope_manifest:
  "in_scope recursive children rel c
   \<Longrightarrow> (root @ rel, c) \<in> set (manifests root (Some children) recursive)"
  using located_manifest [of children rel "RegularFile c" c recursive root]
  by (simp add: in_scope_def)

lemma in_scope_parent:
  "in_scope recursive children rel c \<Longrightarrow> parent (root @ rel) = root @ butlast rel"
  unfolding in_scope_def parent_def using located_nonempty [of children rel]
  by (auto simp: butlast_append)

lemma values_of_Some:
  "extract_urls (readlines body) = Inr vs \<Longrightarrow> values_of (Some body) = vs"
  by (simp add: values_of_def)

text \<open>
  Claim C10. Every key of the mapping that \<open>get_dependencies\<close> returns has a non-empty
  list of URLs; the mapping is empty exactly when no manifest in scope has a \<open>.url\<close>
  line; and a manifest without such a line leaves the mapping as it was, so it creates
  no key.
\<close>

theorem groups_never_empty:
  assumes "get_dependencies root (Some children) recursive = Inr deps"
  shows "(\<forall>(folder, urls) \<in> set deps. urls \<noteq> [])
         \<and> (deps = [] \<longleftrightarrow>
              (\<forall>rel body. in_scope recursive children rel (Some body)
                           \<longrightarrow> url_lines (readlines body) = []))
         \<and> (\<forall>file body d. url_lines (readlines body) = []
                           \<longrightarrow> find_dependencies file (Some body) d = Inr d)"
proof (intro conjI)
  note g = get_dependencies_Inr [OF assms]
  from g(2) show "\<forall>(folder, urls) \<in> set deps. urls \<noteq> []" by force
  have "deps = [] \<longleftrightarrow> (\<forall>k. urls_of deps k = [])"
    using g(2) by (rule urls_of_all_empty)
  also have "\<dots> \<longleftrightarrow> (\<forall>k. contributed (manifests root (Some children) recursive) k = [])"
    using g(3) by simp
  also have "\<dots> \<longleftrightarrow> (\<forall>(p, c) \<in> set (manifests root (Some children) recursive). values_of c = [])"
    by (rule contributed_all_empty)
  also have "\<dots> \<longleftrightarrow> (\<forall>rel body. in_scope recursive children rel (Some body)
                           \<longrightarrow> url_lines (readlines body) = [])"
  proof (intro iffI allI impI)
    fix rel body
    assume a: "\<forall>(p, c) \<in> set (manifests root (Some children) recursive). values_of c = []"
      and s: "in_scope recursive children rel (Some body)"
    from in_scope_manifest [OF s, of root]
    have m: "(root @ rel, Some body) \<in> set (manifests root (Some children) recursive)" .
    with a have v: "values_of (Some body) = []" by blast
    from g(4) [OF m] obtain vs where "extract_urls (readlines body) = Inr vs" by auto
    with v have "extract_urls (readlines body) = Inr []" by (simp add: values_of_def)
    then show "url_lines (readlines body) = []" by (simp add: extract_urls_empty_iff)
  next
    assume a: "\<forall>rel body. in_scope recursive children rel (Some body)
                           \<longrightarrow> url_lines (readlines body) = []"
    show "\<forall>(p, c) \<in> set (manifests root (Some children) recursive). values_of c = []"
    proof (clarify)
      fix p c assume m: "(p, c) \<in> set (manifests root (Some children) recursive)"
      from g(4) [OF m] obtain body vs where c: "c = Some body"
        "extract_urls (readlines body) = Inr vs" by blast
      from c(1) have "c \<noteq> None \<or> walkable recursive (Some children)" by simp
      from m manifests_scope [OF this, of p root]
      obtain rel where "in_scope recursive children rel c" by blast
      with a c(1) have "url_lines (readlines body) = []" by blast
      then have "extract_urls (readlines body) = Inr []" by (simp add: extract_urls_empty_iff)
      with c(1) show "values_of c = []" by (simp add: values_of_def)
    qed
  qed
  finally show "deps = [] \<longleftrightarrow>
              (\<forall>rel body. in_scope recursive children rel (Some body)
                           \<longrightarrow> url_lines (readlines body) = [])" .
  show "\<forall>file body d. url_lines (readlines body) = []
                           \<longrightarrow> find_dependencies file (Some body) d = Inr d"
  proof (intro allI impI)
    fix zon body d assume "url_lines (readlines body) = []"
    then have "extract_urls (readlines body) = Inr []" by (simp add: extract_urls_empty_iff)
    then show "find_dependencies zon (Some body) d = Inr d"
      by (simp add: find_dependencies_def find_lines_extract append_all_Nil)
  qed
qed


lemma nested_tree_collected:
  "get_dependencies [''proj'']
     (Some [(ZON, RegularFile (Some (''.name = .app,'' @ [CHR 0x0A] @ ''// .url = none'' @ [CHR 0x0A]))),
      (''lib'', Directory
         (Some [(ZON, RegularFile (Some (''.url = '' @ [CHR 0x22] @ ''a#1'' @ [CHR 0x22])))]))]) True
   = Inr [([''proj'', ''lib''], [''a#1''])]"
  by (simp add: get_dependencies_def find_dependencies_def parent_def ZON_def strip_def
        isspace_def startswith_def index_def Let_def)

lemma no_url_lines_example:
  "url_lines (readlines (''.name = .app,'' @ [CHR 0x0A] @ ''// .url = none'' @ [CHR 0x0A])) = []"
  by (simp add: url_lines_def is_comment_def is_url_field_def strip_def isspace_def
        startswith_def)

theorem groups_never_empty_witness:
  "get_dependencies [''proj'']
     (Some [(ZON, RegularFile (Some (''.name = .app,'' @ [CHR 0x0A] @ ''// .url = none'' @ [CHR 0x0A]))),
      (''lib'', Directory
         (Some [(ZON, RegularFile (Some (''.url = '' @ [CHR 0x22] @ ''a#1'' @ [CHR 0x22])))]))]) True
   = Inr [([''proj'', ''lib''], [''a#1''])]
   \<and> find_dependencies [''proj'', ZON]
       (Some (''.name = .app,'' @ [CHR 0x0A] @ ''// .url = none'' @ [CHR 0x0A]))
       [([''proj'', ''lib''], [''a#1''])]
     = Inr [([''proj'', ''lib''], [''a#1''])]"
proof -
  from groups_never_empty [OF nested_tree_collected]
  have "\<forall>zon body d. url_lines (readlines body) = []
          \<longrightarrow> find_dependencies zon (Some body) d = Inr d" by blast
  with no_url_lines_example
  have "find_dependencies [''proj'', ZON]
       (Some (''.name = .app,'' @ [CHR 0x0A] @ ''// .url = none'' @ [CHR 0x0A]))
       [([''proj'', ''lib''], [''a#1''])]
     = Inr [([''proj'', ''lib''], [''a#1''])]" by blast
  with nested_tree_collected show ?thesis by (rule conjI)
qed



lemma in_scope_flat:
  "in_scope False children rel content
   \<longleftrightarrow> rel = [ZON] \<and> (ZON, RegularFile content) \<in> set children"
proof
  assume "in_scope False children rel content"
  then have l: "located children rel (RegularFile content)" and z: "last rel = ZON"
    and n: "length rel = 1" by (simp_all add: in_scope_def)
  from l show "rel = [ZON] \<and> (ZON, RegularFile content) \<in> set children"
  proof (cases rule: located.cases)
    case (here name)
    with z show ?thesis by simp
  next
    case (below name sub rel')
    from below(3) have "rel' \<noteq> []" by (rule located_nonempty)
    with below(1) n show ?thesis by (cases rel') simp_all
  qed
next
  assume "rel = [ZON] \<and> (ZON, RegularFile content) \<in> set children"
  then show "in_scope False children rel content"
    by (auto simp: in_scope_def intro: located.here)
qed


lemma urls_of_member_nonempty:
  "urls_of deps k = xs \<Longrightarrow> xs \<noteq> [] \<Longrightarrow> (k, xs) \<in> set deps"
  by (auto simp: urls_of_def split: option.splits dest: map_of_SomeD)

lemma member_urls_of:
  "distinct (map fst deps) \<Longrightarrow> (k, xs) \<in> set deps \<Longrightarrow> urls_of deps k = xs"
  by (simp add: urls_of_def)

lemma scope_contributes:
  assumes g: "get_dependencies root (Some children) recursive = Inr deps"
    and s: "in_scope recursive children rel content"
  shows "\<exists>body vs. content = Some body \<and> extract_urls (readlines body) = Inr vs
               \<and> (vs \<noteq> [] \<longrightarrow>
                    (\<exists>before after. (root @ butlast rel, before @ vs @ after) \<in> set deps))"
proof -
  from in_scope_manifest [OF s, of root]
  have m: "(root @ rel, content) \<in> set (manifests root (Some children) recursive)" .
  from get_dependencies_Inr(4) [OF g m] obtain body vs where c: "content = Some body"
    "extract_urls (readlines body) = Inr vs" by blast
  then have v: "values_of content = vs" by (simp add: values_of_def)
  from contributed_member [OF m in_scope_parent [OF s, of root]]
  obtain before after where
    "contributed (manifests root (Some children) recursive) (root @ butlast rel)
       = before @ values_of content @ after"
    by blast
  then have u: "urls_of deps (root @ butlast rel) = before @ vs @ after"
    unfolding v get_dependencies_Inr(3) [OF g, of "root @ butlast rel"] .
  have "vs \<noteq> [] \<longrightarrow> (root @ butlast rel, before @ vs @ after) \<in> set deps"
  proof
    assume "vs \<noteq> []"
    then have "before @ vs @ after \<noteq> []" by simp
    with u show "(root @ butlast rel, before @ vs @ after) \<in> set deps"
      by (rule urls_of_member_nonempty)
  qed
  then have "\<exists>before after. vs \<noteq> [] \<longrightarrow> (root @ butlast rel, before @ vs @ after) \<in> set deps"
    by (intro exI)
  then have "vs \<noteq> [] \<longrightarrow> (\<exists>before after. (root @ butlast rel, before @ vs @ after) \<in> set deps)"
    by simp
  with c show ?thesis by (intro exI conjI)
qed

lemma url_from_scope:
  assumes g: "get_dependencies root (Some children) recursive = Inr deps"
    and d: "(folder, urls) \<in> set deps" and u: "u \<in> set urls"
  shows "\<exists>rel body vs. in_scope recursive children rel (Some body)
                 \<and> folder = root @ butlast rel
                 \<and> extract_urls (readlines body) = Inr vs \<and> u \<in> set vs"
proof -
  have "urls_of deps folder = urls"
    using get_dependencies_Inr(1) [OF g] d by (rule member_urls_of)
  with u have "u \<in> set (contributed (manifests root (Some children) recursive) folder)"
    unfolding get_dependencies_Inr(3) [OF g, of folder] by simp
  from contributed_elem [OF this] obtain p c where
    m: "(p, c) \<in> set (manifests root (Some children) recursive)" and p: "parent p = folder"
    and uv: "u \<in> set (values_of c)" by blast
  from get_dependencies_Inr(4) [OF g m] obtain body vs where c: "c = Some body"
    and e: "extract_urls (readlines body) = Inr vs" by blast
  from e have v: "values_of (Some body) = vs" by (rule values_of_Some)
  from c have "c \<noteq> None \<or> walkable recursive (Some children)" by simp
  from m manifests_scope [OF this, of p root]
  obtain rel where r: "p = root @ rel" and sc: "in_scope recursive children rel c" by blast
  have f: "folder = root @ butlast rel"
    using in_scope_parent [OF sc, of root] p unfolding r by simp
  have 1: "in_scope recursive children rel (Some body)" using sc unfolding c .
  have 2: "u \<in> set vs" using uv unfolding c v .
  from 1 f e 2 show ?thesis by (intro exI conjI)
qed

lemma flat_keys:
  assumes g: "get_dependencies root (Some children) False = Inr deps"
    and d: "(folder, urls) \<in> set deps"
  shows "folder = root"
proof -
  from get_dependencies_Inr(2) [OF g] d have "urls \<noteq> []" by force
  then have "hd urls \<in> set urls" by simp
  from url_from_scope [OF g d this] obtain rel body where
    s: "in_scope False children rel (Some body)" and f: "folder = root @ butlast rel" by blast
  from s have "rel = [ZON]" unfolding in_scope_flat by (rule conjunct1)
  then have "butlast rel = []" by simp
  then show ?thesis unfolding f by simp
qed

text \<open>
  Claim C6. A manifest is in scope when it is a regular file named \<open>build.zig.zon\<close>
  directly inside the root or, for a recursive scan, at any depth below it. When
  \<open>get_dependencies\<close> returns, every manifest in scope has contributed its URLs, in
  order, to the group keyed by its own parent directory, and every URL of the mapping
  comes from a manifest in scope and sits under that manifest's parent. Without the
  recursive flag the manifests in scope are those directly inside the root, so the only
  key is the root.
\<close>

theorem walker_scope_and_grouping:
  assumes "get_dependencies root (Some children) recursive = Inr deps"
  shows "(\<forall>rel content. in_scope recursive children rel content \<longrightarrow>
            (\<exists>body vs. content = Some body \<and> extract_urls (readlines body) = Inr vs
               \<and> (vs \<noteq> [] \<longrightarrow>
                    (\<exists>before after. (root @ butlast rel, before @ vs @ after) \<in> set deps))))
         \<and> (\<forall>folder urls u. (folder, urls) \<in> set deps \<and> u \<in> set urls \<longrightarrow>
              (\<exists>rel body vs. in_scope recursive children rel (Some body)
                 \<and> folder = root @ butlast rel
                 \<and> extract_urls (readlines body) = Inr vs \<and> u \<in> set vs))
         \<and> (\<not> recursive \<longrightarrow>
              (\<forall>rel content. in_scope recursive children rel content
                 \<longleftrightarrow> rel = [ZON] \<and> (ZON, RegularFile content) \<in> set children)
              \<and> (\<forall>(folder, urls) \<in> set deps. folder = root))
         \<and> (recursive \<longrightarrow>
              (\<forall>rel content. in_scope recursive children rel content
                 \<longleftrightarrow> located children rel (RegularFile content) \<and> last rel = ZON))"
proof (intro conjI allI impI)
  fix rel content assume "in_scope recursive children rel content"
  with assms show "\<exists>body vs. content = Some body \<and> extract_urls (readlines body) = Inr vs
               \<and> (vs \<noteq> [] \<longrightarrow>
                    (\<exists>before after. (root @ butlast rel, before @ vs @ after) \<in> set deps))"
    by (rule scope_contributes)
next
  fix folder urls u assume "(folder, urls) \<in> set deps \<and> u \<in> set urls"
  then have "(folder, urls) \<in> set deps" "u \<in> set urls" by simp_all
  with assms show "\<exists>rel body vs. in_scope recursive children rel (Some body)
                 \<and> folder = root @ butlast rel
                 \<and> extract_urls (readlines body) = Inr vs \<and> u \<in> set vs"
    by (rule url_from_scope)
next
  fix rel content assume "\<not> recursive"
  then show "in_scope recursive children rel content
                 \<longleftrightarrow> rel = [ZON] \<and> (ZON, RegularFile content) \<in> set children"
    by (simp add: in_scope_flat)
next
  assume "\<not> recursive"
  with assms have g: "get_dependencies root (Some children) False = Inr deps" by simp
  show "\<forall>(folder, urls) \<in> set deps. folder = root"
  proof (clarify)
    fix folder urls assume "(folder, urls) \<in> set deps"
    with g show "folder = root" by (rule flat_keys)
  qed
next
  fix rel content assume "recursive"
  then show "in_scope recursive children rel content
                 \<longleftrightarrow> located children rel (RegularFile content) \<and> last rel = ZON"
    by (simp add: in_scope_def)
qed

lemma nested_tree_flat:
  "get_dependencies [''proj'']
     (Some [(ZON, RegularFile (Some (''.name = .app,'' @ [CHR 0x0A] @ ''// .url = none'' @ [CHR 0x0A]))),
      (''lib'', Directory
         (Some [(ZON, RegularFile (Some (''.url = '' @ [CHR 0x22] @ ''a#1'' @ [CHR 0x22])))]))]) False
   = Inr []"
  by (simp add: get_dependencies_def find_dependencies_def parent_def ZON_def strip_def
        isspace_def startswith_def index_def Let_def)

theorem walker_scope_and_grouping_witness:
  "get_dependencies [''proj'']
     (Some [(ZON, RegularFile (Some (''.name = .app,'' @ [CHR 0x0A] @ ''// .url = none'' @ [CHR 0x0A]))),
      (''lib'', Directory
         (Some [(ZON, RegularFile (Some (''.url = '' @ [CHR 0x22] @ ''a#1'' @ [CHR 0x22])))]))]) True
   = Inr [([''proj'', ''lib''], [''a#1''])]
   \<and> get_dependencies [''proj'']
     (Some [(ZON, RegularFile (Some (''.name = .app,'' @ [CHR 0x0A] @ ''// .url = none'' @ [CHR 0x0A]))),
      (''lib'', Directory
         (Some [(ZON, RegularFile (Some (''.url = '' @ [CHR 0x22] @ ''a#1'' @ [CHR 0x22])))]))]) False
   = Inr []
   \<and> (\<exists>rel body vs. in_scope True
     [(ZON, RegularFile (Some (''.name = .app,'' @ [CHR 0x0A] @ ''// .url = none'' @ [CHR 0x0A]))),
      (''lib'', Directory
         (Some [(ZON, RegularFile (Some (''.url = '' @ [CHR 0x22] @ ''a#1'' @ [CHR 0x22])))]))] rel (Some body)
        \<and> [''proj'', ''lib''] = [''proj''] @ butlast rel
        \<and> extract_urls (readlines body) = Inr vs \<and> ''a#1'' \<in> set vs)"
proof -
  have m: "([''proj'', ''lib''], [''a#1'']) \<in> set [([''proj'', ''lib''], [''a#1''])]"
    "''a#1'' \<in> set [''a#1'']" by simp_all
  from walker_scope_and_grouping [OF nested_tree_collected] m
  have "\<exists>rel body vs. in_scope True
     [(ZON, RegularFile (Some (''.name = .app,'' @ [CHR 0x0A] @ ''// .url = none'' @ [CHR 0x0A]))),
      (''lib'', Directory
         (Some [(ZON, RegularFile (Some (''.url = '' @ [CHR 0x22] @ ''a#1'' @ [CHR 0x22])))]))] rel (Some body)
        \<and> [''proj'', ''lib''] = [''proj''] @ butlast rel
        \<and> extract_urls (readlines body) = Inr vs \<and> ''a#1'' \<in> set vs"
    by blast
  with nested_tree_collected nested_tree_flat show ?thesis by blast
qed


lemma extract_urls_member:
  "extract_urls raws = Inr vs \<Longrightarrow> line \<in> set (url_lines raws)
   \<Longrightarrow> \<exists>v. index (split (CHR 0x22) line) 1 = Inr v \<and> v \<in> set vs"
proof (induction raws arbitrary: vs)
  case Nil
  then show ?case by (simp add: url_lines_Nil)
next
  case (Cons raw raws)
  show ?case
  proof (cases "\<not> startswith (strip raw) ''//'' \<and> startswith (strip raw) ''.url''")
    case True
    show ?thesis
    proof (cases "index (split (CHR 0x22) (strip raw)) 1")
      case (Inl e)
      with True Cons.prems(1) show ?thesis by (simp add: Let_def)
    next
      case (Inr v)
      note v = this
      show ?thesis
      proof (cases "extract_urls raws")
        case (Inl e)
        with True v Cons.prems(1) show ?thesis by (simp add: Let_def)
      next
        case (Inr rest)
        with True v Cons.prems(1) have vs: "vs = v # rest" by (simp add: Let_def)
        from Cons.prems(2) True have "line = strip raw \<or> line \<in> set (url_lines raws)"
          by (simp add: url_lines_Cons)
        then show ?thesis
        proof
          assume "line = strip raw"
          with v vs show ?thesis by simp
        next
          assume "line \<in> set (url_lines raws)"
          from Cons.IH [OF Inr this] vs show ?thesis by auto
        qed
      qed
    qed
  next
    case False
    with Cons.prems have "extract_urls raws = Inr vs" "line \<in> set (url_lines raws)"
      by (auto simp: Let_def url_lines_Cons split: if_splits)
    then show ?thesis by (rule Cons.IH)
  qed
qed

lemma get_dependencies_fails:
  assumes "in_scope recursive children rel (Some body)"
    and "extract_urls (readlines body) = Inl e"
  shows "\<exists>e'. get_dependencies root (Some children) recursive = Inl e'"
proof (cases "get_dependencies root (Some children) recursive")
  case (Inl e')
  then show ?thesis by blast
next
  case (Inr deps)
  from in_scope_manifest [OF assms(1), of root]
  have "(root @ rel, Some body) \<in> set (manifests root (Some children) recursive)" .
  from get_dependencies_Inr(4) [OF Inr this] assms(2) show ?thesis by simp
qed

lemma extract_urls_returns:
  "\<forall>l \<in> set (url_lines raws). CHR 0x22 \<in> set l \<Longrightarrow> \<exists>vs. extract_urls raws = Inr vs"
proof (induction raws)
  case Nil
  show ?case by simp
next
  case (Cons raw raws)
  from Cons obtain vs where vs: "extract_urls raws = Inr vs"
    by (auto simp: url_lines_Cons split: if_splits)
  show ?case
  proof (cases "\<not> startswith (strip raw) ''//'' \<and> startswith (strip raw) ''.url''")
    case True
    with Cons.prems have "CHR 0x22 \<in> set (strip raw)" by (simp add: url_lines_Cons)
    then have "dropWhile (\<lambda>c. c \<noteq> CHR 0x22) (strip raw) \<noteq> []" by simp
    then obtain q rest where "dropWhile (\<lambda>c. c \<noteq> CHR 0x22) (strip raw) = q # rest"
      by (cases "dropWhile (\<lambda>c. c \<noteq> CHR 0x22) (strip raw)") auto
    then have "index (split (CHR 0x22) (strip raw)) 1
                 = Inr (takeWhile (\<lambda>c. c \<noteq> CHR 0x22) rest)"
      unfolding index_split_1 by simp
    with True vs show ?thesis by (simp add: Let_def)
  next
    case False
    with vs show ?thesis by (auto simp: Let_def)
  qed
qed

lemma find_dependencies_group:
  assumes "find_dependencies zon (Some body) deps = Inr deps'"
  shows "\<exists>vs. extract_urls (readlines body) = Inr vs
           \<and> urls_of deps' (parent zon) = urls_of deps (parent zon) @ vs"
proof -
  from find_dependencies_Inr [OF assms] obtain vs where
    "extract_urls (readlines body) = Inr vs" "deps' = append_all deps (parent zon) vs" by auto
  then show ?thesis by (simp add: urls_of_append_all)
qed

text \<open>
  Claim C9. A manifest with a \<open>.url\<close> line (trimmed, not a comment) that holds no
  double quote makes \<open>_find_dependencies\<close> raise \<open>IndexError\<close>; nothing catches it, so
  a run with such a manifest in scope ends with an exception before anything is written
  or invoked. For such a line with exactly one double quote there is no pair of quotes,
  and the value that \<open>_find_dependencies\<close> appends to the group of the manifest's
  folder is everything after that quote; it does return when every \<open>.url\<close> line of
  the manifest holds a double quote.
\<close>

theorem unquoted_url_line:
  assumes "line \<in> set (url_lines (readlines body))"
  shows "(CHR 0x22 \<notin> set line \<longrightarrow>
            find_dependencies zon (Some body) deps = Inl IndexError
            \<and> (in_scope recursive children rel (Some body) \<longrightarrow>
                 (\<exists>e. main zig root (Some children) recursive update = (Inl e, initial))
                 \<and> exit_status (fst (main zig root (Some children) recursive update)) \<noteq> 0))
         \<and> (count_list line (CHR 0x22) = 1 \<longrightarrow>
              quoted_value line = None
              \<and> index (split (CHR 0x22) line) 1
                    = Inr (tl (dropWhile (\<lambda>c. c \<noteq> CHR 0x22) line))
              \<and> (\<forall>vs. extract_urls (readlines body) = Inr vs
                     \<longrightarrow> tl (dropWhile (\<lambda>c. c \<noteq> CHR 0x22) line) \<in> set vs)
              \<and> (\<forall>deps'. find_dependencies zon (Some body) deps = Inr deps' \<longrightarrow>
                     (\<exists>before after. urls_of deps' (parent zon) =
                        urls_of deps (parent zon) @ before
                          @ tl (dropWhile (\<lambda>c. c \<noteq> CHR 0x22) line) # after))
              \<and> ((\<forall>l \<in> set (url_lines (readlines body)). CHR 0x22 \<in> set l) \<longrightarrow>
                     (\<exists>deps'. find_dependencies zon (Some body) deps = Inr deps')))"
proof (intro conjI impI allI)
  assume q: "CHR 0x22 \<notin> set line"
  from extract_urls_no_quote [OF assms q]
  have e: "extract_urls (readlines body) = Inl IndexError" .
  then show "find_dependencies zon (Some body) deps = Inl IndexError"
    by (simp add: find_dependencies_def find_lines_extract)
  assume "in_scope recursive children rel (Some body)"
  from get_dependencies_fails [OF this e, of root]
  obtain e' where "get_dependencies root (Some children) recursive = Inl e'" by blast
  then have m: "main zig root (Some children) recursive update = (Inl e', initial)"
    by (simp add: main_def)
  then show "\<exists>e. main zig root (Some children) recursive update = (Inl e, initial)" by blast
  from m show "exit_status (fst (main zig root (Some children) recursive update)) \<noteq> 0"
    by (simp add: exit_status_def)
next
  assume c: "count_list line (CHR 0x22) = 1"
  then show "quoted_value line = None" by (simp add: quoted_value_None_iff)
  from c show v: "index (split (CHR 0x22) line) 1
                    = Inr (tl (dropWhile (\<lambda>c. c \<noteq> CHR 0x22) line))"
    by (rule one_quote_value)
  have mem: "tl (dropWhile (\<lambda>c. c \<noteq> CHR 0x22) line) \<in> set vs"
    if "extract_urls (readlines body) = Inr vs" for vs
    using extract_urls_member [OF that assms] v by auto
  show "tl (dropWhile (\<lambda>c. c \<noteq> CHR 0x22) line) \<in> set vs"
    if "extract_urls (readlines body) = Inr vs" for vs
    using that by (rule mem)
  show "\<exists>before after. urls_of deps' (parent zon) =
                        urls_of deps (parent zon) @ before
                          @ tl (dropWhile (\<lambda>c. c \<noteq> CHR 0x22) line) # after"
    if f: "find_dependencies zon (Some body) deps = Inr deps'" for deps'
  proof -
    from find_dependencies_group [OF f] obtain vs where
      e: "extract_urls (readlines body) = Inr vs"
      and u: "urls_of deps' (parent zon) = urls_of deps (parent zon) @ vs" by blast
    from mem [OF e] obtain before after
      where "vs = before @ tl (dropWhile (\<lambda>c. c \<noteq> CHR 0x22) line) # after"
      by (meson split_list)
    with u show ?thesis by blast
  qed
next
  assume "\<forall>l \<in> set (url_lines (readlines body)). CHR 0x22 \<in> set l"
  from extract_urls_returns [OF this] obtain vs
    where "extract_urls (readlines body) = Inr vs" by blast
  then have "find_dependencies zon (Some body) deps = Inr (append_all deps (parent zon) vs)"
    by (simp add: find_dependencies_def find_lines_extract)
  then show "\<exists>deps'. find_dependencies zon (Some body) deps = Inr deps'" by blast
qed

theorem unquoted_url_line_witness:
  "find_dependencies [''proj'', ZON] (Some ''.url = pkg'') [] = Inl IndexError
   \<and> exit_status (fst (main save_fails [''proj''] (Some [(ZON, RegularFile (Some ''.url = pkg''))])
                          False False)) \<noteq> 0
   \<and> (\<exists>deps' before after.
         find_dependencies [''proj'', ZON] (Some (''.url = '' @ [CHR 0x22] @ ''pkg#1,'')) [] = Inr deps'
         \<and> urls_of deps' [''proj''] = before @ ''pkg#1,'' # after)"
proof -
  have l0: "''.url = pkg'' \<in> set (url_lines (readlines ''.url = pkg''))"
    by (simp add: url_lines_def is_comment_def is_url_field_def strip_def isspace_def
          startswith_def)
  have q0: "CHR 0x22 \<notin> set ''.url = pkg''" by simp
  have s0: "in_scope False [(ZON, RegularFile (Some ''.url = pkg''))] [ZON] (Some ''.url = pkg'')"
    unfolding in_scope_flat by simp
  from unquoted_url_line [OF l0, of "[''proj'', ZON]" "[]" False
      "[(ZON, RegularFile (Some ''.url = pkg''))]" "[ZON]" save_fails "[''proj'']" False] q0 s0
  have a: "find_dependencies [''proj'', ZON] (Some ''.url = pkg'') [] = Inl IndexError
   \<and> exit_status (fst (main save_fails [''proj''] (Some [(ZON, RegularFile (Some ''.url = pkg''))])
                          False False)) \<noteq> 0"
    by blast
  have u1: "url_lines (readlines (''.url = '' @ [CHR 0x22] @ ''pkg#1,''))
              = [''.url = '' @ [CHR 0x22] @ ''pkg#1,'']"
    by (simp add: url_lines_def is_comment_def is_url_field_def strip_def isspace_def
          startswith_def)
  have l1: "''.url = '' @ [CHR 0x22] @ ''pkg#1,''
              \<in> set (url_lines (readlines (''.url = '' @ [CHR 0x22] @ ''pkg#1,'')))"
    unfolding u1 by simp
  have c1: "count_list (''.url = '' @ [CHR 0x22] @ ''pkg#1,'') (CHR 0x22) = 1" by simp
  have q1: "\<forall>l \<in> set (url_lines (readlines (''.url = '' @ [CHR 0x22] @ ''pkg#1,''))).
              CHR 0x22 \<in> set l"
    unfolding u1 by simp
  have t1: "tl (dropWhile (\<lambda>c. c \<noteq> CHR 0x22) (''.url = '' @ [CHR 0x22] @ ''pkg#1,'')) = ''pkg#1,''"
    by simp
  have p1: "parent [''proj'', ZON] = [''proj'']" by (simp add: parent_def)
  have e1: "urls_of [] [''proj''] = []" by (simp add: urls_of_def)
  from unquoted_url_line [OF l1, of "[''proj'', ZON]" "[]"] c1 q1
  have "\<exists>deps'. find_dependencies [''proj'', ZON] (Some (''.url = '' @ [CHR 0x22] @ ''pkg#1,'')) [] = Inr deps'"
    and "\<forall>deps'. find_dependencies [''proj'', ZON] (Some (''.url = '' @ [CHR 0x22] @ ''pkg#1,'')) [] = Inr deps' \<longrightarrow>
           (\<exists>before after. urls_of deps' (parent [''proj'', ZON]) =
              urls_of [] (parent [''proj'', ZON]) @ before
                @ tl (dropWhile (\<lambda>c. c \<noteq> CHR 0x22) (''.url = '' @ [CHR 0x22] @ ''pkg#1,'')) # after)"
    by blast+
  then have b: "\<exists>deps' before after.
         find_dependencies [''proj'', ZON] (Some (''.url = '' @ [CHR 0x22] @ ''pkg#1,'')) [] = Inr deps'
         \<and> urls_of deps' [''proj''] = before @ ''pkg#1,'' # after"
    unfolding t1 p1 e1 by auto
  from a b show ?thesis by blast
qed

end
